theory Spec2Isabelle
  imports Complex_Main "HOL-Library.Log_Nat"
begin

chapter \<open>The model\<close>

section \<open>Data model (cetest_models.py, cetest_ce.py)\<close>

text \<open>
  The dataclasses of the repository become records. Several dataclasses share field
  names (\<open>platform\<close>, \<open>series\<close>, \<open>semver\<close>, ...), so the fields of
  \<open>CompilerInfo\<close> carry the prefix \<open>ci_\<close>, those of \<open>CeAttempt\<close> the prefix
  \<open>att_\<close> and the three group-identity fields of \<open>CeGroupSummary\<close> the prefix
  \<open>sum_\<close>. Python's \<open>str | None\<close> is \<open>string option\<close>, Python's unbounded
  \<open>int\<close> is \<open>int\<close>.
\<close>

record CompilerInfo =
  ci_id :: string
  ci_name :: string
  ci_lang :: string
  ci_compiler_type :: string
  ci_semver :: "string option"
  ci_instruction_set :: "string option"

record CeAttempt =
  att_platform :: string
  att_series :: string
  att_compiler_type :: string
  att_compiler_id :: string
  att_compiler_name :: string
  att_semver :: "string option"
  att_code :: int
  att_stderr_text :: string

definition ok :: "CeAttempt \<Rightarrow> bool" where
  "ok a = (att_code a = 0)"

record CeGroupSummary =
  sum_platform :: string
  sum_series :: string
  sum_compiler_type :: string
  highest_supported :: "CeAttempt option"
  lowest_supported :: "CeAttempt option"
  first_failure :: "CeAttempt option"
  attempts :: "CeAttempt list"
  inconclusive_reason :: "string option"

text \<open>The sentinel result codes of cetest_core.py.\<close>

definition CODE_TIMEOUT :: int where
  "CODE_TIMEOUT = - 100"

definition CODE_TRANSPORT_ERROR :: int where
  "CODE_TRANSPORT_ERROR = - 101"

definition CODE_ABORTED :: int where
  "CODE_ABORTED = - 102"

section \<open>The group prober (cetest_ce.py, \<open>CeProbeWorker\<close>)\<close>

subsection \<open>The world outside the prober\<close>

text \<open>
  \<open>_probe_group_binary\<close> talks to the remote service through
  \<open>self._ce.compile_cached\<close> and polls the abort flag through \<open>self._cancelled()\<close>.
  Both are inputs of the model.

  \<^item> \<open>compile_cached w i\<close> is what the call made for the candidate at index \<open>i\<close> does:
    it returns a response, reduced here to the two things \<open>test\<close> reads from it,
    \<open>int(resp.get("code", -1))\<close> and \<open>stderr_text_from_resp(resp)\<close>; or it raises
    \<open>TimeoutError\<close>/\<open>socket.timeout\<close>; or it raises any other exception (a response
    whose code \<open>int()\<close> rejects raises inside the same \<open>try\<close> and is such a fault too);
    or it raises \<open>CancelledByUser\<close>. The string of a fault is \<open>str(e)\<close>.
  \<^item> \<open>cancelled w k\<close> is the answer of the \<open>k\<close>-th poll of \<open>self._cancelled()\<close>
    during one probe (polls are counted from 0).
\<close>

datatype outcome =
    Response int string
  | TimeoutFault string
  | TransportFault string
  | Aborted

record worker =
  compile_cached :: "nat \<Rightarrow> outcome"
  cancelled :: "nat \<Rightarrow> bool"

datatype exn = CancelledByUser | IndexError

text \<open>
  The mutable locals of one call of \<open>_probe_group_binary\<close>: the dict
  \<open>attempts_by_idx\<close> (an association list in insertion order; \<open>test\<close> only inserts
  a key that is absent), the \<open>nonlocal inconclusive_reason\<close>, and two counters that the
  code does not keep but its effects define: the number of polls of the abort flag made
  so far and the indices for which \<open>compile_cached\<close> was called, in call order.
\<close>

record pstate =
  attempts_by_idx :: "(nat \<times> CeAttempt) list"
  inc_reason :: "string option"
  polls :: nat
  calls :: "nat list"

definition init_pstate :: pstate where
  "init_pstate = \<lparr>attempts_by_idx = [], inc_reason = None, polls = 0, calls = []\<rparr>"

definition mk_attempt :: "string \<Rightarrow> string \<Rightarrow> string \<Rightarrow> CompilerInfo \<Rightarrow> int \<Rightarrow> string \<Rightarrow> CeAttempt" where
  "mk_attempt platform series fam ci c txt =
     \<lparr>att_platform = platform, att_series = series, att_compiler_type = fam,
      att_compiler_id = ci_id ci, att_compiler_name = ci_name ci, att_semver = ci_semver ci,
      att_code = c, att_stderr_text = txt\<rparr>"

definition timeout_reason :: "CompilerInfo \<Rightarrow> string" where
  "timeout_reason ci = ''Timeout talking to Compiler Explorer (compiler id='' @ ci_id ci @ '')''"

definition transport_reason :: "CompilerInfo \<Rightarrow> string" where
  "transport_reason ci =
     ''Transport error talking to Compiler Explorer (compiler id='' @ ci_id ci @ '')''"

text \<open>
  What the candidate at index \<open>i\<close> is recorded as, given the outcome of its compile call:
  the three \<open>CeAttempt(...)\<close> constructions of \<open>test\<close>.
\<close>

fun attempt_of :: "string \<Rightarrow> string \<Rightarrow> string \<Rightarrow> CompilerInfo \<Rightarrow> outcome \<Rightarrow> CeAttempt" where
  "attempt_of platform series fam ci (Response c txt) = mk_attempt platform series fam ci c txt"
| "attempt_of platform series fam ci (TimeoutFault e) =
     mk_attempt platform series fam ci CODE_TIMEOUT e"
| "attempt_of platform series fam ci (TransportFault e) =
     mk_attempt platform series fam ci CODE_TRANSPORT_ERROR e"
| "attempt_of platform series fam ci Aborted =
     mk_attempt platform series fam ci CODE_ABORTED []"

fun reason_of :: "CompilerInfo \<Rightarrow> outcome \<Rightarrow> string option" where
  "reason_of ci (Response c txt) = None"
| "reason_of ci (TimeoutFault e) = Some (timeout_reason ci)"
| "reason_of ci (TransportFault e) = Some (transport_reason ci)"
| "reason_of ci Aborted = None"

fun is_fault :: "outcome \<Rightarrow> bool" where
  "is_fault (TimeoutFault e) = True"
| "is_fault (TransportFault e) = True"
| "is_fault _ = False"

subsection \<open>The nested function \<open>test\<close>\<close>

text \<open>
  \<open>test(i)\<close>: poll the abort flag; answer from \<open>attempts_by_idx\<close> when the index was
  tested before; otherwise read \<open>compilers[i]\<close> (an \<open>IndexError\<close> out of range),
  call the service, record the attempt, and set \<open>inconclusive_reason\<close> on a fault.
  A \<open>CancelledByUser\<close> raised by the call is re-raised and records nothing.
\<close>

definition test ::
  "worker \<Rightarrow> string \<Rightarrow> string \<Rightarrow> string \<Rightarrow> CompilerInfo list \<Rightarrow> nat \<Rightarrow> pstate
     \<Rightarrow> (exn + CeAttempt) \<times> pstate" where
  "test w platform series fam compilers i st =
     (let st1 = st\<lparr>polls := Suc (polls st)\<rparr> in
      if cancelled w (polls st) then (Inl CancelledByUser, st1)
      else case map_of (attempts_by_idx st1) i of
        Some hit \<Rightarrow> (Inr hit, st1)
      | None \<Rightarrow>
          if length compilers \<le> i then (Inl IndexError, st1)
          else
            let ci = compilers ! i;
                st2 = st1\<lparr>calls := calls st1 @ [i]\<rparr>;
                r = compile_cached w i
            in case r of
                 Aborted \<Rightarrow> (Inl CancelledByUser, st2)
               | _ \<Rightarrow>
                   let att = attempt_of platform series fam ci r in
                   (Inr att,
                    st2\<lparr>attempts_by_idx := attempts_by_idx st2 @ [(i, att)],
                        inc_reason := (case reason_of ci r of
                                         Some m \<Rightarrow> Some m
                                       | None \<Rightarrow> inc_reason st2)\<rparr>))"

text \<open>
  \<open>[attempts_by_idx[i] for i in sorted(attempts_by_idx.keys())]\<close>. Every key looked up
  is a key of the dict, so no lookup can miss.
\<close>

definition tested :: "pstate \<Rightarrow> CeAttempt list" where
  "tested st =
     List.map_filter (map_of (attempts_by_idx st)) (sort (map fst (attempts_by_idx st)))"

definition summary ::
  "string \<Rightarrow> string \<Rightarrow> string \<Rightarrow> CeAttempt option \<Rightarrow> CeAttempt option \<Rightarrow> CeAttempt option
     \<Rightarrow> CeAttempt list \<Rightarrow> string option \<Rightarrow> CeGroupSummary" where
  "summary platform series fam hs ls ff atts inc =
     \<lparr>sum_platform = platform, sum_series = series, sum_compiler_type = fam,
      highest_supported = hs, lowest_supported = ls, first_failure = ff,
      attempts = atts, inconclusive_reason = inc\<rparr>"

subsection \<open>The binary-search loop\<close>

text \<open>
  The \<open>while high - low > 1\<close> loop. It leaves in one of three ways: an exception, an
  early \<open>return\<close> of an inconclusive summary, or the loop condition failing with the final
  \<open>low\<close> and \<open>high\<close>. Python's \<open>high - low\<close> is an integer subtraction; here
  \<open>low \<le> high\<close> is not needed for the test \<open>1 < high - low\<close> to agree with it, because
  truncated subtraction gives 0 exactly where the integer difference is not positive.
\<close>

datatype loop_exit = Returned CeGroupSummary | Exited nat nat

function search_loop ::
  "worker \<Rightarrow> string \<Rightarrow> string \<Rightarrow> string \<Rightarrow> CompilerInfo list \<Rightarrow> CeAttempt \<Rightarrow> nat \<Rightarrow> nat
     \<Rightarrow> pstate \<Rightarrow> (exn + loop_exit) \<times> pstate" where
  "search_loop w platform series fam compilers newest low high st =
     (if 1 < high - low then
        let st1 = st\<lparr>polls := Suc (polls st)\<rparr> in
        if cancelled w (polls st) then (Inl CancelledByUser, st1)
        else
          let mid = (low + high) div 2 in
         (case test w platform series fam compilers mid st1 of
            (Inl e, st2) \<Rightarrow> (Inl e, st2)
          | (Inr am, st2) \<Rightarrow>
             (if inc_reason st2 \<noteq> None then
                (Inr (Returned (summary platform series fam (Some newest) None (Some am)
                                 (tested st2) (inc_reason st2))), st2)
              else if ok am then search_loop w platform series fam compilers newest mid high st2
              else search_loop w platform series fam compilers newest low mid st2))
      else (Inr (Exited low high), st))"
  by pat_completeness auto
termination
  by (relation "measure (\<lambda>(w, platform, series, fam, compilers, newest, low, high, st). high - low)")
     auto

subsection \<open>\<open>_probe_group_binary\<close>\<close>

definition probe_group_binary ::
  "worker \<Rightarrow> string \<Rightarrow> string \<Rightarrow> string \<Rightarrow> CompilerInfo list
     \<Rightarrow> (exn + CeGroupSummary) \<times> pstate" where
  "probe_group_binary w platform series fam compilers =
     (let n = length compilers; st0 = init_pstate in
      if n = 0 then (Inr (summary platform series fam None None None [] None), st0)
      else
       (case test w platform series fam compilers 0 st0 of
          (Inl e, st1) \<Rightarrow> (Inl e, st1)
        | (Inr newest, st1) \<Rightarrow>
           (if inc_reason st1 \<noteq> None then
              (Inr (summary platform series fam None None (Some newest) (tested st1)
                      (inc_reason st1)), st1)
            else if \<not> ok newest then
              (Inr (summary platform series fam None None (Some newest) [newest] None), st1)
            else if n = 1 then
              (Inr (summary platform series fam (Some newest) (Some newest) None [newest] None),
               st1)
            else
             (case test w platform series fam compilers (n - 1) st1 of
                (Inl e, st2) \<Rightarrow> (Inl e, st2)
              | (Inr oldest, st2) \<Rightarrow>
                 (if inc_reason st2 \<noteq> None then
                    (Inr (summary platform series fam (Some newest) None (Some oldest)
                            (tested st2) (inc_reason st2)), st2)
                  else if ok oldest then
                    (Inr (summary platform series fam (Some newest) (Some oldest) None
                            (tested st2) None), st2)
                  else
                   (case search_loop w platform series fam compilers newest 0 (n - 1) st2 of
                      (Inl e, st3) \<Rightarrow> (Inl e, st3)
                    | (Inr (Returned s), st3) \<Rightarrow> (Inr s, st3)
                    | (Inr (Exited low high), st3) \<Rightarrow>
                       (case test w platform series fam compilers low st3 of
                          (Inl e, st4) \<Rightarrow> (Inl e, st4)
                        | (Inr lowest_ok, st4) \<Rightarrow>
                           (case test w platform series fam compilers high st4 of
                              (Inl e, st5) \<Rightarrow> (Inl e, st5)
                            | (Inr first_fail, st5) \<Rightarrow>
                               (if inc_reason st5 \<noteq> None then
                                  (Inr (summary platform series fam (Some newest) None
                                          (Some first_fail) (tested st5) (inc_reason st5)), st5)
                                else
                                  (Inr (summary platform series fam (Some newest)
                                          (if ok lowest_ok then Some lowest_ok else None)
                                          (if \<not> ok first_fail then Some first_fail else None)
                                          (tested st5) None), st5))))))))))"

subsection \<open>The group-level error containment of \<open>run\<close>\<close>

text \<open>
  One iteration of the \<open>for\<close> loop of \<open>CeProbeWorker.run\<close>: the abort flag is polled
  before the group; \<open>CancelledByUser\<close> leaves the loop (the worker emits \<open>aborted\<close>);
  any other exception of the probe becomes a summary with a synthetic first failure, which
  is emitted as the group's result. The result is the summary handed to \<open>group_done\<close>,
  or \<open>None\<close> when the run was aborted. \<open>msg\<close> is \<open>str(e)\<close> of the caught exception.
\<close>

definition probe_error_summary :: "string \<Rightarrow> string \<Rightarrow> string \<Rightarrow> string \<Rightarrow> CeGroupSummary" where
  "probe_error_summary platform series compiler_type msg =
     summary platform series compiler_type None None
       (Some \<lparr>att_platform = platform, att_series = series, att_compiler_type = compiler_type,
              att_compiler_id = [], att_compiler_name = ''(probe error)'', att_semver = None,
              att_code = CODE_TRANSPORT_ERROR, att_stderr_text = msg\<rparr>)
       [] (Some (''Probe error: '' @ msg))"

fun exn_str :: "exn \<Rightarrow> string" where
  "exn_str IndexError = ''list index out of range''"
| "exn_str CancelledByUser = []"

definition run_group ::
  "bool \<Rightarrow> worker \<Rightarrow> string \<Rightarrow> string \<Rightarrow> string \<Rightarrow> CompilerInfo list \<Rightarrow> CeGroupSummary option" where
  "run_group cancelled_before w platform series compiler_type compilers =
     (if cancelled_before then None
      else case fst (probe_group_binary w platform series compiler_type compilers) of
        Inr s \<Rightarrow> Some s
      | Inl CancelledByUser \<Rightarrow> None
      | Inl e \<Rightarrow> Some (probe_error_summary platform series compiler_type (exn_str e)))"

subsection \<open>Invariants of the probe state\<close>

text \<open>
  Three predicates on the state of a probe, used to state what holds between two calls of
  \<open>test\<close>. \<open>consistent\<close>: the dict holds exactly the indices that were compiled, each
  once, each with the attempt its outcome defines. \<open>clean\<close>: no fault has happened.
  \<open>faulted i\<close>: the last compile call, for index \<open>i\<close>, faulted and no earlier one did.
\<close>

definition consistent :: "worker \<Rightarrow> string \<Rightarrow> string \<Rightarrow> string \<Rightarrow> CompilerInfo list \<Rightarrow> pstate \<Rightarrow> bool" where
  "consistent w p s f cs st \<longleftrightarrow>
     map fst (attempts_by_idx st) = calls st \<and> distinct (calls st) \<and>
     (\<forall>j a. map_of (attempts_by_idx st) j = Some a \<longrightarrow>
        j < length cs \<and> a = attempt_of p s f (cs ! j) (compile_cached w j))"

definition clean :: "worker \<Rightarrow> pstate \<Rightarrow> bool" where
  "clean w st \<longleftrightarrow> inc_reason st = None \<and> (\<forall>j \<in> set (calls st). \<not> is_fault (compile_cached w j))"

definition faulted :: "worker \<Rightarrow> CompilerInfo list \<Rightarrow> pstate \<Rightarrow> nat \<Rightarrow> bool" where
  "faulted w cs st i \<longleftrightarrow>
     calls st \<noteq> [] \<and> last (calls st) = i \<and> is_fault (compile_cached w i) \<and>
     (\<forall>j \<in> set (butlast (calls st)). \<not> is_fault (compile_cached w j)) \<and>
     inc_reason st = reason_of (cs ! i) (compile_cached w i)"

text \<open>
  What the claims say of a summary: supported attempts have result code 0 and the first
  failure has not; and a summary either comes from a fault-free probe and carries no
  inconclusive reason, or reports the one faulted attempt.
\<close>

definition summary_sound :: "CeGroupSummary \<Rightarrow> bool" where
  "summary_sound g \<longleftrightarrow>
     (\<forall>a. highest_supported g = Some a \<longrightarrow> ok a) \<and>
     (\<forall>a. lowest_supported g = Some a \<longrightarrow> ok a) \<and>
     (\<forall>a. first_failure g = Some a \<longrightarrow> \<not> ok a)"

definition fault_report :: "worker \<Rightarrow> string \<Rightarrow> string \<Rightarrow> string \<Rightarrow> CompilerInfo list \<Rightarrow> pstate \<Rightarrow> CeGroupSummary \<Rightarrow> bool" where
  "fault_report w p s f cs st g \<longleftrightarrow>
     (clean w st \<and> inconclusive_reason g = None) \<or>
     (\<exists>i. faulted w cs st i \<and> inconclusive_reason g = reason_of (cs ! i) (compile_cached w i) \<and>
          lowest_supported g = None \<and>
          first_failure g = Some (attempt_of p s f (cs ! i) (compile_cached w i)) \<and>
          attempts g = tested st)"

subsection \<open>Example inputs\<close>

text \<open>
  A group of \<open>n\<close> candidates, newest first, and three workers that are never cancelled:
  one for which the candidates up to index \<open>k\<close> compile and the later ones do not, one
  that in addition meets a transport fault at index \<open>j\<close>, and one for which nothing
  compiles.
\<close>

definition digit_char :: "nat \<Rightarrow> char" where
  "digit_char d = char_of (48 + d)"

fun dec :: "nat \<Rightarrow> string" where
  "dec n = (if n < 10 then [digit_char n] else dec (n div 10) @ [digit_char (n mod 10)])"

declare dec.simps [simp del]

definition demo_compiler :: "nat \<Rightarrow> CompilerInfo" where
  "demo_compiler i =
     \<lparr>ci_id = ''g'' @ dec (160 - i), ci_name = ''x86-64 gcc '' @ dec (16 - i div 10),
      ci_lang = ''c++'', ci_compiler_type = ''gcc'', ci_semver = Some (dec (16 - i div 10)),
      ci_instruction_set = Some ''amd64''\<rparr>"

definition demo_compilers :: "nat \<Rightarrow> CompilerInfo list" where
  "demo_compilers n = map demo_compiler [0..<n]"

definition boundary_worker :: "nat \<Rightarrow> worker" where
  "boundary_worker k =
     \<lparr>compile_cached = (\<lambda>i. if i \<le> k then Response 0 [] else Response 1 ''error: no member''),
      cancelled = (\<lambda>q. False)\<rparr>"

definition faulty_worker :: "nat \<Rightarrow> nat \<Rightarrow> worker" where
  "faulty_worker k j =
     \<lparr>compile_cached = (\<lambda>i. if i = j then TransportFault ''connection reset''
                             else if i \<le> k then Response 0 [] else Response 1 ''error: no member''),
      cancelled = (\<lambda>q. False)\<rparr>"

definition failing_worker :: worker where
  "failing_worker =
     \<lparr>compile_cached = (\<lambda>i. Response 1 ''error: no member''), cancelled = (\<lambda>q. False)\<rparr>"

section \<open>Strings\<close>

text \<open>
  Python strings are modelled as \<open>string\<close>, one \<open>char\<close> per code point, for text in
  the ASCII range. \<open>is_space\<close> is \<open>str.isspace\<close> there, which is also what
  \<open>str.strip()\<close> removes and what \<open>\s\<close> matches in a \<open>str\<close> pattern: tab, line feed,
  vertical tab, form feed, carriage return, the four separators \<open>0x1C\<close>--\<open>0x1F\<close>, and
  the space.
\<close>

definition is_space :: "char \<Rightarrow> bool" where
  "is_space c = (c \<in> set [CHR 0x09, CHR 0x0A, CHR 0x0B, CHR 0x0C, CHR 0x0D,
                           CHR 0x1C, CHR 0x1D, CHR 0x1E, CHR 0x1F, CHR '' ''])"

definition strip :: "string \<Rightarrow> string" where
  "strip s = rev (dropWhile is_space (rev (dropWhile is_space s)))"

section \<open>Library rules (cetest_prefs.py)\<close>

record LibraryRule =
  scope :: string
  target :: string
  lib_id :: string
  version :: string

text \<open>\<open>str(s or "").strip()\<close>; for a string \<open>s\<close>, \<open>str(s or "")\<close> is \<open>s\<close>.\<close>

definition normalize_ce_library_id :: "string \<Rightarrow> string" where
  "normalize_ce_library_id s = strip s"

definition normalize_ce_library_version :: "string \<Rightarrow> string" where
  "normalize_ce_library_version s = strip s"

text \<open>
  The nested \<open>apply_rule\<close> updates the two locals \<open>chosen_by_id\<close> (a dict) and
  \<open>order\<close> (a list), which are threaded here as a pair.
\<close>

definition apply_rule ::
  "LibraryRule \<Rightarrow> (string \<rightharpoonup> string) \<times> string list \<Rightarrow> (string \<rightharpoonup> string) \<times> string list" where
  "apply_rule r st =
     (let lid = normalize_ce_library_id (lib_id r);
          ver = normalize_ce_library_version (version r)
      in if lid = [] \<or> ver = [] then st
         else (case st of (chosen_by_id, order) \<Rightarrow>
                 (chosen_by_id(lid \<mapsto> ver),
                  if chosen_by_id lid = None then order @ [lid] else order)))"

text \<open>The body of \<open>for r in rules\<close>: the \<open>if\<close>/\<open>elif\<close> chain on the scope.\<close>

definition rule_step ::
  "string \<Rightarrow> string \<Rightarrow> LibraryRule \<Rightarrow> (string \<rightharpoonup> string) \<times> string list
     \<Rightarrow> (string \<rightharpoonup> string) \<times> string list" where
  "rule_step fam cid r st =
     (if scope r = ''all'' then apply_rule r st
      else if scope r = ''family'' \<and> target r = fam then apply_rule r st
      else if scope r = ''compiler'' \<and> target r = cid then apply_rule r st
      else st)"

text \<open>
  \<open>_effective_libraries_for_compiler\<close>. The result, a list of dicts
  \<open>{"id": lid, "version": ver}\<close>, is a list of pairs \<open>(lid, ver)\<close>.
\<close>

definition effective_libraries_for_compiler ::
  "LibraryRule list \<Rightarrow> string \<Rightarrow> string \<Rightarrow> (string \<times> string) list" where
  "effective_libraries_for_compiler rules family compiler_id =
     (let fam = strip family; cid = strip compiler_id in
      case fold (rule_step fam cid) rules (Map.empty, []) of
        (chosen_by_id, order) \<Rightarrow>
          List.map_filter
            (\<lambda>lid. case chosen_by_id lid of Some ver \<Rightarrow> Some (lid, ver) | None \<Rightarrow> None) order)"

subsection \<open>The resolution as the specification words it\<close>

text \<open>
  A rule applies to a compiler when its scope is \<open>all\<close>, or \<open>family\<close> with the
  compiler's family as target, or \<open>compiler\<close> with the compiler's id as target. A rule
  is usable when its library id and version are not blank. \<open>last_writer_wins\<close> merges a
  list of rules: one entry per library id, in the order in which the ids are first seen,
  each with the version of the last rule for that id. \<open>by_priority\<close> lists the applying
  rules in the priority order of the specification: the \<open>all\<close> rules, then the family
  rules, then the compiler rules. \<open>spec_effective_libraries\<close> is the specification's
  effective library set.
\<close>

definition rule_applies :: "string \<Rightarrow> string \<Rightarrow> LibraryRule \<Rightarrow> bool" where
  "rule_applies fam cid r \<longleftrightarrow>
     scope r = ''all'' \<or> scope r = ''family'' \<and> target r = fam \<or>
     scope r = ''compiler'' \<and> target r = cid"

definition rule_usable :: "LibraryRule \<Rightarrow> bool" where
  "rule_usable r \<longleftrightarrow> strip (lib_id r) \<noteq> [] \<and> strip (version r) \<noteq> []"

definition first_seen :: "'a list \<Rightarrow> 'a list" where
  "first_seen xs = rev (remdups (rev xs))"

definition last_writer_wins :: "LibraryRule list \<Rightarrow> (string \<times> string) list" where
  "last_writer_wins rs =
     (let us = filter rule_usable rs in
      map (\<lambda>l. (l, strip (version (last (filter (\<lambda>r. strip (lib_id r) = l) us)))))
          (first_seen (map (\<lambda>r. strip (lib_id r)) us)))"

definition by_priority :: "string \<Rightarrow> string \<Rightarrow> LibraryRule list \<Rightarrow> LibraryRule list" where
  "by_priority fam cid rules =
     filter (\<lambda>r. scope r = ''all'') rules @
     filter (\<lambda>r. scope r = ''family'' \<and> target r = fam) rules @
     filter (\<lambda>r. scope r = ''compiler'' \<and> target r = cid) rules"

definition spec_effective_libraries ::
  "LibraryRule list \<Rightarrow> string \<Rightarrow> string \<Rightarrow> (string \<times> string) list" where
  "spec_effective_libraries rules family compiler_id =
     last_writer_wins (by_priority (strip family) (strip compiler_id) rules)"

text \<open>The invariant of the loop over the rules, for the usable applying rules seen so far.\<close>

definition fold_inv :: "LibraryRule list \<Rightarrow> (string \<rightharpoonup> string) \<times> string list \<Rightarrow> bool" where
  "fold_inv us st \<longleftrightarrow>
     snd st = first_seen (map (\<lambda>r. strip (lib_id r)) us) \<and>
     (\<forall>l. fst st l =
        (if l \<in> set (map (\<lambda>r. strip (lib_id r)) us)
         then Some (strip (version (last (filter (\<lambda>r. strip (lib_id r) = l) us)))) else None))"

text \<open>
  The rules of the specification's example, and the same rules with the compiler rule
  entered first.
\<close>

definition fmt_rules :: "LibraryRule list" where
  "fmt_rules =
     [\<lparr>scope = ''all'', target = [], lib_id = ''fmt'', version = ''9.0''\<rparr>,
      \<lparr>scope = ''family'', target = ''gcc'', lib_id = ''fmt'', version = ''11.0''\<rparr>,
      \<lparr>scope = ''compiler'', target = ''g132'', lib_id = ''fmt'', version = ''13.0''\<rparr>]"

definition fmt_rules_compiler_first :: "LibraryRule list" where
  "fmt_rules_compiler_first =
     [\<lparr>scope = ''compiler'', target = ''g132'', lib_id = ''fmt'', version = ''13.0''\<rparr>,
      \<lparr>scope = ''all'', target = [], lib_id = ''fmt'', version = ''9.0''\<rparr>]"

section \<open>Version sort keys (cetest_models.py, \<open>parse_semver_key\<close>)\<close>

subsection \<open>String helpers\<close>

text \<open>
  \<open>is_digit\<close> is what \<open>\d\<close> matches in ASCII text, \<open>lower\<close> is \<open>str.lower()\<close>
  there, \<open>startswith s p\<close> is \<open>s.startswith(p)\<close> and \<open>contains s sub\<close> is Python's
  \<open>sub in s\<close>.
\<close>

definition is_digit :: "char \<Rightarrow> bool" where
  "is_digit c = (48 \<le> (of_char c :: nat) \<and> (of_char c :: nat) \<le> 57)"

definition lower_char :: "char \<Rightarrow> char" where
  "lower_char c =
     (if 65 \<le> (of_char c :: nat) \<and> (of_char c :: nat) \<le> 90 then char_of ((of_char c :: nat) + 32) else c)"

definition lower :: "string \<Rightarrow> string" where
  "lower s = map lower_char s"

fun startswith :: "string \<Rightarrow> string \<Rightarrow> bool" where
  "startswith s [] = True"
| "startswith [] (p # ps) = False"
| "startswith (c # cs) (p # ps) = (c = p \<and> startswith cs ps)"

fun contains :: "string \<Rightarrow> string \<Rightarrow> bool" where
  "contains [] sub = (sub = [])"
| "contains (c # cs) sub = (startswith (c # cs) sub \<or> contains cs sub)"

subsection \<open>\<open>int()\<close> of a digit string\<close>

text \<open>
  \<open>int(ds)\<close> for a non-empty string of decimal digits is its decimal value. CPython
  refuses to convert a string of more than \<open>sys.get_int_max_str_digits()\<close> digits
  (4300 unless reconfigured) and raises \<open>ValueError\<close>; \<open>parse_semver_key\<close> does not
  catch it. \<open>int_group g\<close> is \<open>int(m.group(i) or 0)\<close>: a group that did not take part
  in the match is \<open>None\<close> and gives 0.
\<close>

datatype conv_error = ValueError | TypeError

definition int_max_str_digits :: nat where
  "int_max_str_digits = 4300"

definition int_of_digits :: "string \<Rightarrow> int" where
  "int_of_digits ds = foldl (\<lambda>a c. 10 * a + int ((of_char c :: nat) - 48)) 0 ds"

definition py_int_digits :: "string \<Rightarrow> conv_error + int" where
  "py_int_digits ds = (if int_max_str_digits < length ds then Inl ValueError else Inr (int_of_digits ds))"

definition int_group :: "string option \<Rightarrow> conv_error + int" where
  "int_group g = (case g of None \<Rightarrow> Inr 0 | Some ds \<Rightarrow> if ds = [] then Inr 0 else py_int_digits ds)"

subsection \<open>The regular expression of \<open>parse_semver_key\<close>\<close>

text \<open>
  \<open>re.match(r"^\s*(\d+)(?:\.(\d+))?(?:\.(\d+))?(.*)$", t)\<close>. The greedy match is: skip
  white space, take all leading digits (at least one), then twice, if a dot followed by a
  digit comes next, take the dot and all digits after it; the remainder must match
  \<open>(.*)$\<close>, where \<open>.\<close> matches everything but a line feed and \<open>$\<close> matches at the
  end or before a final line feed. A remainder that fails \<open>(.*)$\<close> does so for a line
  feed inside it, which every other way of matching the earlier groups leaves in the
  remainder too, so backtracking finds no match where the greedy attempt finds none.
\<close>

definition opt_dot_digits :: "string \<Rightarrow> string option \<times> string" where
  "opt_dot_digits r =
     (case r of
        [] \<Rightarrow> (None, r)
      | c # cs \<Rightarrow>
          if c = CHR ''.'' \<and> takeWhile is_digit cs \<noteq> []
          then (Some (takeWhile is_digit cs), dropWhile is_digit cs)
          else (None, r))"

definition match_rest :: "string \<Rightarrow> string option" where
  "match_rest r =
     (if CHR 0x0A \<notin> set r then Some r
      else if last r = CHR 0x0A \<and> CHR 0x0A \<notin> set (butlast r) then Some (butlast r)
      else None)"

definition match_version :: "string \<Rightarrow> (string \<times> string option \<times> string option \<times> string) option" where
  "match_version t =
     (let u = dropWhile is_space t;
          g1 = takeWhile is_digit u;
          r1 = dropWhile is_digit u
      in if g1 = [] then None
         else case opt_dot_digits r1 of (g2, r2) \<Rightarrow>
              case opt_dot_digits r2 of (g3, r3) \<Rightarrow>
              case match_rest r3 of
                None \<Rightarrow> None
              | Some g4 \<Rightarrow> Some (g1, g2, g3, g4))"

subsection \<open>\<open>parse_semver_key\<close>\<close>

definition bleeding_edge_tokens :: "string list" where
  "bleeding_edge_tokens = [''trunk'', ''head'', ''git'', ''snapshot'', ''nightly'', ''tip'']"

definition starts_with_digit :: "string \<Rightarrow> bool" where
  "starts_with_digit st = (case st of [] \<Rightarrow> False | c # cs \<Rightarrow> is_digit c)"

type_synonym semver_key = "int \<times> int \<times> int \<times> int \<times> string"

definition parse_semver_key :: "string option \<Rightarrow> conv_error + semver_key" where
  "parse_semver_key s =
     (case s of
        None \<Rightarrow> Inr (0, 0, 0, 0, [])
      | Some s \<Rightarrow>
          if s = [] then Inr (0, 0, 0, 0, [])
          else
            let st = lower (strip s) in
            if list_ex (\<lambda>k. contains st k) bleeding_edge_tokens \<and> \<not> starts_with_digit st
            then Inr (9999, 9999, 9999, 9999, st)
            else
             (case match_version (strip s) of
                None \<Rightarrow> Inr (0, 0, 0, 0, strip s)
              | Some (g1, g2, g3, g4) \<Rightarrow>
                 (case int_group (Some g1) of
                    Inl e \<Rightarrow> Inl e
                  | Inr a \<Rightarrow>
                     (case int_group g2 of
                        Inl e \<Rightarrow> Inl e
                      | Inr b \<Rightarrow>
                         (case int_group g3 of
                            Inl e \<Rightarrow> Inl e
                          | Inr c \<Rightarrow>
                              let rest = strip g4;
                                  tweak = (if contains (lower rest) ''trunk'' \<or> contains (lower rest) ''git''
                                           then 1 else 0)
                              in Inr (a, b, c, tweak, rest))))))"

text \<open>
  Python compares the keys as tuples: lexicographically, the integers by value and the
  final strings by code point. \<open>key_less k1 k2\<close> is \<open>k1 < k2\<close>.
\<close>

fun str_less :: "string \<Rightarrow> string \<Rightarrow> bool" where
  "str_less [] [] = False"
| "str_less [] (y # ys) = True"
| "str_less (x # xs) [] = False"
| "str_less (x # xs) (y # ys) =
     ((of_char x :: nat) < of_char y \<or> (x = y \<and> str_less xs ys))"

fun key_less :: "semver_key \<Rightarrow> semver_key \<Rightarrow> bool" where
  "key_less (a1, b1, c1, t1, r1) (a2, b2, c2, t2, r2) =
     (a1 < a2 \<or> a1 = a2 \<and>
       (b1 < b2 \<or> b1 = b2 \<and>
         (c1 < c2 \<or> c1 = c2 \<and>
           (t1 < t2 \<or> t1 = t2 \<and> str_less r1 r2))))"

section \<open>The report interchange format (cetest_app.py)\<close>

subsection \<open>Python values\<close>

text \<open>
  The report is a \<open>dict[str, Any]\<close> as \<open>json\<close> loads and dumps it. \<open>pyval\<close> has the
  values that \<open>summaries_to_report_dict\<close> builds: \<open>None\<close>, booleans, integers, strings,
  lists and dicts with string keys (association lists in insertion order; the dict
  literals of the source have distinct keys). \<open>py_get d k\<close> is \<open>d.get(k)\<close>,
  \<open>truthy\<close> is Python's truth value, \<open>py_or a b\<close> is \<open>a or b\<close>.

  \<open>str(v)\<close> and \<open>int(v)\<close> are defined here for the values that have a short
  definition. Two built-in behaviours are inputs of the model instead, gathered in the
  record \<open>builtins\<close>: the text of a list or dict (\<open>repr_of\<close>) and the integer that
  \<open>int()\<close> reads from a string, if any (\<open>int_of_text\<close>, \<open>None\<close> for a
  \<open>ValueError\<close>).
\<close>

datatype pyval =
    PNone
  | PBool bool
  | PInt int
  | PStr string
  | PList "pyval list"
  | PDict "(string \<times> pyval) list"

record builtins =
  repr_of :: "pyval \<Rightarrow> string"
  int_of_text :: "string \<Rightarrow> int option"

definition py_get :: "(string \<times> pyval) list \<Rightarrow> string \<Rightarrow> pyval" where
  "py_get d k = (case map_of d k of Some v \<Rightarrow> v | None \<Rightarrow> PNone)"

fun truthy :: "pyval \<Rightarrow> bool" where
  "truthy PNone = False"
| "truthy (PBool b) = b"
| "truthy (PInt i) = (i \<noteq> 0)"
| "truthy (PStr s) = (s \<noteq> [])"
| "truthy (PList vs) = (vs \<noteq> [])"
| "truthy (PDict d) = (d \<noteq> [])"

definition py_or :: "pyval \<Rightarrow> pyval \<Rightarrow> pyval" where
  "py_or a b = (if truthy a then a else b)"

definition show_int :: "int \<Rightarrow> string" where
  "show_int i = (if i < 0 then CHR ''-'' # dec (nat (- i)) else dec (nat i))"

fun py_str :: "builtins \<Rightarrow> pyval \<Rightarrow> string" where
  "py_str B (PStr s) = s"
| "py_str B PNone = ''None''"
| "py_str B (PBool b) = (if b then ''True'' else ''False'')"
| "py_str B (PInt i) = show_int i"
| "py_str B v = repr_of B v"

fun py_int :: "builtins \<Rightarrow> pyval \<Rightarrow> conv_error + int" where
  "py_int B (PInt i) = Inr i"
| "py_int B (PBool b) = Inr (if b then 1 else 0)"
| "py_int B (PStr s) = (case int_of_text B s of Some i \<Rightarrow> Inr i | None \<Rightarrow> Inl ValueError)"
| "py_int B v = Inl TypeError"

subsection \<open>\<open>summaries_to_report_dict\<close>\<close>

definition att_to_dict :: "CeAttempt \<Rightarrow> (string \<times> pyval) list" where
  "att_to_dict a =
     [(''platform'', PStr (att_platform a)),
      (''series'', PStr (att_series a)),
      (''arch'', PStr (att_platform a)),
      (''family'', PStr (att_compiler_type a)),
      (''id'', PStr (att_compiler_id a)),
      (''name'', PStr (att_compiler_name a)),
      (''semver'', (case att_semver a of None \<Rightarrow> PNone | Some v \<Rightarrow> PStr v)),
      (''code'', PInt (att_code a)),
      (''ok'', PBool (ok a)),
      (''stderr'', PStr (att_stderr_text a))]"

definition opt_att :: "CeAttempt option \<Rightarrow> pyval" where
  "opt_att a = (case a of None \<Rightarrow> PNone | Some a \<Rightarrow> PDict (att_to_dict a))"

definition group_to_dict :: "CeGroupSummary \<Rightarrow> (string \<times> pyval) list" where
  "group_to_dict s =
     [(''family'', PStr (sum_compiler_type s)),
      (''platform'', PStr (sum_platform s)),
      (''series'', PStr (sum_series s)),
      (''arch'', PStr (sum_platform s)),
      (''highest_supported'', opt_att (highest_supported s)),
      (''lowest_supported'', opt_att (lowest_supported s)),
      (''first_failure'', opt_att (first_failure s)),
      (''attempts'', PList (map (\<lambda>a. PDict (att_to_dict a)) (attempts s))),
      (''inconclusive_reason'',
         (case inconclusive_reason s of None \<Rightarrow> PNone | Some m \<Rightarrow> PStr m))]"

definition summaries_to_report_dict :: "string \<Rightarrow> CeGroupSummary list \<Rightarrow> (string \<times> pyval) list" where
  "summaries_to_report_dict standard summaries =
     [(''standard'', PStr standard),
      (''groups'', PList (map (\<lambda>s. PDict (group_to_dict s)) summaries))]"

subsection \<open>\<open>report_dict_to_summaries\<close>\<close>

text \<open>
  The only call that can raise is \<open>int(...)\<close> on the code; the error then leaves the
  function. \<open>opt_dict_to_att\<close> is \<open>dict_to_att(v) if isinstance(v, dict) else None\<close>;
  \<open>the_dicts\<close> is the test \<open>all(isinstance(a, dict) for a in atts)\<close> together with the
  dicts it found; \<open>groups_loop\<close> is the \<open>for g in groups\<close> loop, which skips what is
  not a dict.
\<close>

definition dict_to_att :: "builtins \<Rightarrow> (string \<times> pyval) list \<Rightarrow> conv_error + CeAttempt" where
  "dict_to_att B x =
     (case py_int B (if py_get x ''code'' \<noteq> PNone then py_get x ''code'' else PInt (- 1)) of
        Inl e \<Rightarrow> Inl e
      | Inr c \<Rightarrow>
          Inr \<lparr>att_platform =
                 py_str B (py_or (py_or (py_get x ''platform'') (py_get x ''arch'')) (PStr ''unknown'')),
               att_series = py_str B (py_or (py_get x ''series'') (PStr ''(unknown series)'')),
               att_compiler_type = py_str B (py_or (py_get x ''family'') (PStr ''unknown'')),
               att_compiler_id = py_str B (py_or (py_get x ''id'') (PStr [])),
               att_compiler_name = py_str B (py_or (py_get x ''name'') (PStr [])),
               att_semver =
                 (if py_get x ''semver'' \<noteq> PNone then Some (py_str B (py_get x ''semver'')) else None),
               att_code = c,
               att_stderr_text = py_str B (py_or (py_get x ''stderr'') (PStr []))\<rparr>)"

definition opt_dict_to_att :: "builtins \<Rightarrow> pyval \<Rightarrow> conv_error + CeAttempt option" where
  "opt_dict_to_att B v =
     (case v of
        PDict x \<Rightarrow> (case dict_to_att B x of Inl e \<Rightarrow> Inl e | Inr a \<Rightarrow> Inr (Some a))
      | _ \<Rightarrow> Inr None)"

fun the_dicts :: "pyval list \<Rightarrow> (string \<times> pyval) list list option" where
  "the_dicts [] = Some []"
| "the_dicts (PDict x # vs) = (case the_dicts vs of Some xs \<Rightarrow> Some (x # xs) | None \<Rightarrow> None)"
| "the_dicts (v # vs) = None"

fun atts_of_dicts :: "builtins \<Rightarrow> (string \<times> pyval) list list \<Rightarrow> conv_error + CeAttempt list" where
  "atts_of_dicts B [] = Inr []"
| "atts_of_dicts B (x # xs) =
     (case dict_to_att B x of
        Inl e \<Rightarrow> Inl e
      | Inr a \<Rightarrow> (case atts_of_dicts B xs of Inl e \<Rightarrow> Inl e | Inr as \<Rightarrow> Inr (a # as)))"

definition attempts_of :: "builtins \<Rightarrow> pyval \<Rightarrow> conv_error + CeAttempt list" where
  "attempts_of B atts =
     (case atts of
        PList vs \<Rightarrow> (case the_dicts vs of Some xs \<Rightarrow> atts_of_dicts B xs | None \<Rightarrow> Inr [])
      | _ \<Rightarrow> Inr [])"

definition dict_to_group :: "builtins \<Rightarrow> (string \<times> pyval) list \<Rightarrow> conv_error + CeGroupSummary" where
  "dict_to_group B g =
     (let fam = py_str B (py_or (py_get g ''family'') (PStr ''unknown''));
          platform = py_str B (py_or (py_or (py_get g ''platform'') (py_get g ''arch'')) (PStr ''unknown''));
          series = py_str B (py_or (py_get g ''series'') (PStr ''(unknown series)''));
          inc = py_get g ''inconclusive_reason''
      in case opt_dict_to_att B (py_get g ''highest_supported'') of
           Inl e \<Rightarrow> Inl e
         | Inr hs_a \<Rightarrow>
            (case opt_dict_to_att B (py_get g ''lowest_supported'') of
               Inl e \<Rightarrow> Inl e
             | Inr ls_a \<Rightarrow>
                (case opt_dict_to_att B (py_get g ''first_failure'') of
                   Inl e \<Rightarrow> Inl e
                 | Inr ff_a \<Rightarrow>
                    (case attempts_of B (py_get g ''attempts'') of
                       Inl e \<Rightarrow> Inl e
                     | Inr atts \<Rightarrow>
                         Inr \<lparr>sum_platform = platform, sum_series = series,
                              sum_compiler_type = fam, highest_supported = hs_a,
                              lowest_supported = ls_a, first_failure = ff_a, attempts = atts,
                              inconclusive_reason =
                                (if inc \<noteq> PNone then Some (py_str B inc) else None)\<rparr>))))"

fun groups_loop :: "builtins \<Rightarrow> pyval list \<Rightarrow> conv_error + CeGroupSummary list" where
  "groups_loop B [] = Inr []"
| "groups_loop B (PDict g # gs) =
     (case dict_to_group B g of
        Inl e \<Rightarrow> Inl e
      | Inr s \<Rightarrow> (case groups_loop B gs of Inl e \<Rightarrow> Inl e | Inr ss \<Rightarrow> Inr (s # ss)))"
| "groups_loop B (v # gs) = groups_loop B gs"

definition report_dict_to_summaries ::
  "builtins \<Rightarrow> (string \<times> pyval) list \<Rightarrow> conv_error + string \<times> CeGroupSummary list" where
  "report_dict_to_summaries B d =
     (let std = py_str B (py_or (py_get d ''standard'') (PStr ''c++17'')) in
      case py_get d ''groups'' of
        PList groups \<Rightarrow>
          (case groups_loop B groups of Inl e \<Rightarrow> Inl e | Inr summaries \<Rightarrow> Inr (std, summaries))
      | _ \<Rightarrow> Inr (std, []))"

subsection \<open>What a round trip returns\<close>

text \<open>
  \<open>or_default s d\<close> is \<open>s or d\<close> for strings. \<open>reread_att\<close> and \<open>reread_group\<close>
  replace the empty platform, series and family strings by the defaults of
  \<open>report_dict_to_summaries\<close>. An attempt or group is named when none of these strings is
  empty.
\<close>

definition or_default :: "string \<Rightarrow> string \<Rightarrow> string" where
  "or_default s d = (if s = [] then d else s)"

definition reread_att :: "CeAttempt \<Rightarrow> CeAttempt" where
  "reread_att a =
     a\<lparr>att_platform := or_default (att_platform a) ''unknown'',
       att_series := or_default (att_series a) ''(unknown series)'',
       att_compiler_type := or_default (att_compiler_type a) ''unknown''\<rparr>"

definition reread_group :: "CeGroupSummary \<Rightarrow> CeGroupSummary" where
  "reread_group s =
     s\<lparr>sum_platform := or_default (sum_platform s) ''unknown'',
       sum_series := or_default (sum_series s) ''(unknown series)'',
       sum_compiler_type := or_default (sum_compiler_type s) ''unknown'',
       highest_supported := map_option reread_att (highest_supported s),
       lowest_supported := map_option reread_att (lowest_supported s),
       first_failure := map_option reread_att (first_failure s),
       attempts := map reread_att (attempts s)\<rparr>"

definition att_named :: "CeAttempt \<Rightarrow> bool" where
  "att_named a \<longleftrightarrow> att_platform a \<noteq> [] \<and> att_series a \<noteq> [] \<and> att_compiler_type a \<noteq> []"

definition group_named :: "CeGroupSummary \<Rightarrow> bool" where
  "group_named s \<longleftrightarrow>
     sum_platform s \<noteq> [] \<and> sum_series s \<noteq> [] \<and> sum_compiler_type s \<noteq> [] \<and>
     (\<forall>a. highest_supported s = Some a \<longrightarrow> att_named a) \<and>
     (\<forall>a. lowest_supported s = Some a \<longrightarrow> att_named a) \<and>
     (\<forall>a. first_failure s = Some a \<longrightarrow> att_named a) \<and>
     (\<forall>a \<in> set (attempts s). att_named a)"

text \<open>
  Closed instances need a value for the built-ins; the round trip consults neither.
  \<open>demo_summaries\<close> has a summary with every optional field set and one with none.
\<close>

definition demo_builtins :: builtins where
  "demo_builtins = \<lparr>repr_of = (\<lambda>v. []), int_of_text = (\<lambda>s. None)\<rparr>"

definition demo_summaries :: "CeGroupSummary list" where
  "demo_summaries =
     [summary ''x86-64'' ''x86-64 gcc'' ''gcc''
        (Some (mk_attempt ''x86-64'' ''x86-64 gcc'' ''gcc'' (demo_compiler 0) 0 []))
        (Some (mk_attempt ''x86-64'' ''x86-64 gcc'' ''gcc'' (demo_compiler 5) 0 []))
        (Some (mk_attempt ''x86-64'' ''x86-64 gcc'' ''gcc'' (demo_compiler 6) 1 ''error: no member''))
        [mk_attempt ''x86-64'' ''x86-64 gcc'' ''gcc'' (demo_compiler 0) 0 [],
         mk_attempt ''x86-64'' ''x86-64 gcc'' ''gcc'' (demo_compiler 5) 0 [],
         mk_attempt ''x86-64'' ''x86-64 gcc'' ''gcc'' (demo_compiler 6) 1 ''error: no member'']
        (Some ''Timeout talking to Compiler Explorer (compiler id=g153)''),
      summary ''aarch64'' ''armv8-a clang'' ''clang'' None None None [] None]"

definition unnamed_summary :: CeGroupSummary where
  "unnamed_summary = summary ''x86-64'' [] ''gcc'' None None None [] None"

section \<open>The include flattener (cetest_preprocess.py)\<close>

subsection \<open>Files\<close>

text \<open>
  A \<open>Path\<close> is modelled by its text. What \<open>flatten_user_includes\<close> asks of the file
  system is an input of the model: \<open>expanduser\<close>; \<open>is_file p\<close> for
  \<open>p.exists() and p.is_file()\<close>; \<open>norm_abs\<close> for \<open>_norm_abs\<close>; \<open>read_text\<close> for
  \<open>_read_text\<close> (\<open>None\<close> when reading or decoding raises); \<open>sibling p name\<close> for
  \<open>(p.parent / name).expanduser()\<close> and \<open>child d name\<close> for
  \<open>(d / name).expanduser()\<close>. The file system does not change during a run.
\<close>

type_synonym path = string

record fsys =
  expanduser :: "path \<Rightarrow> path"
  is_file :: "path \<Rightarrow> bool"
  norm_abs :: "path \<Rightarrow> string"
  read_text :: "path \<Rightarrow> string option"
  sibling :: "path \<Rightarrow> string \<Rightarrow> path"
  child :: "path \<Rightarrow> string \<Rightarrow> path"

datatype flat_error = FileNotFound | InvalidBuildDatabase | ReadFailure

record flat_cfg =
  inline_once :: bool
  strip_pragma_once :: bool
  emit_line_directives :: bool
  include_debug_comments :: bool
  global_search :: "path list"

record flat_state =
  stack :: "string list"
  inlined :: "string list"
  files_inlined :: nat
  include_lines_seen :: nat
  include_lines_inlined :: nat
  include_lines_unresolved :: nat

definition init_flat_state :: flat_state where
  "init_flat_state =
     \<lparr>stack = [], inlined = [], files_inlined = 0, include_lines_seen = 0,
      include_lines_inlined = 0, include_lines_unresolved = 0\<rparr>"

subsection \<open>Lines and the two regular expressions\<close>

text \<open>
  \<open>splitlines_keepends\<close> is \<open>src.splitlines(True)\<close> on ASCII text: a line ends after
  a line feed, vertical tab, form feed, file, group or record separator, or a carriage
  return, where a carriage return and a line feed together end one line.
  \<open>is_pragma_once\<close> is a match of \<open>^\s*#\s*pragma\s+once\b\<close> and \<open>match_include\<close>
  is the group of a match of \<open>^\s*#\s*include\s*"([^"]+)"\<close>.
\<close>

definition dq :: char where "dq = CHR 0x22"
definition nl :: char where "nl = CHR 0x0A"
definition cr :: char where "cr = CHR 0x0D"
definition backslash :: char where "backslash = CHR 0x5C"

definition is_linebreak :: "char \<Rightarrow> bool" where
  "is_linebreak c = (c \<in> set [CHR 0x0A, CHR 0x0B, CHR 0x0C, CHR 0x0D, CHR 0x1C, CHR 0x1D, CHR 0x1E])"

fun split_lines :: "string \<Rightarrow> string \<Rightarrow> string list" where
  "split_lines cur [] = (if cur = [] then [] else [cur])"
| "split_lines cur [c] = [cur @ [c]]"
| "split_lines cur (c # d # cs) =
     (if c = cr \<and> d = nl then (cur @ [c, d]) # split_lines [] cs
      else if is_linebreak c then (cur @ [c]) # split_lines [] (d # cs)
      else split_lines (cur @ [c]) (d # cs))"

definition splitlines_keepends :: "string \<Rightarrow> string list" where
  "splitlines_keepends src = split_lines [] src"

definition is_word :: "char \<Rightarrow> bool" where
  "is_word c = (is_digit c \<or> c = CHR ''_'' \<or>
                 (65 \<le> (of_char c :: nat) \<and> (of_char c :: nat) \<le> 90) \<or>
                 (97 \<le> (of_char c :: nat) \<and> (of_char c :: nat) \<le> 122))"

definition is_pragma_once :: "string \<Rightarrow> bool" where
  "is_pragma_once line =
     (case dropWhile is_space line of
        [] \<Rightarrow> False
      | c # b \<Rightarrow>
          c = CHR ''#'' \<and>
          (let d = dropWhile is_space b in
           startswith d ''pragma'' \<and>
           (let e = drop 6 d; f = dropWhile is_space e in
            e \<noteq> f \<and> startswith f ''once'' \<and>
            (case drop 4 f of [] \<Rightarrow> True | g # h \<Rightarrow> \<not> is_word g))))"

definition match_include :: "string \<Rightarrow> string option" where
  "match_include line =
     (case dropWhile is_space line of
        [] \<Rightarrow> None
      | c # b \<Rightarrow>
          if c = CHR ''#'' \<and> startswith (dropWhile is_space b) ''include'' then
            (case dropWhile is_space (drop 7 (dropWhile is_space b)) of
               [] \<Rightarrow> None
             | q # e \<Rightarrow>
                 if q = dq \<and> takeWhile (\<lambda>x. x \<noteq> dq) e \<noteq> [] \<and> dropWhile (\<lambda>x. x \<noteq> dq) e \<noteq> []
                 then Some (takeWhile (\<lambda>x. x \<noteq> dq) e) else None)
          else None)"

subsection \<open>The text that the flattener inserts\<close>

definition escape_for_line :: "path \<Rightarrow> string" where
  "escape_for_line p =
     concat (map (\<lambda>c. if c = backslash then [backslash, backslash]
                       else if c = dq then [backslash, dq] else [c]) p)"

definition cycle_marker :: "path \<Rightarrow> string" where
  "cycle_marker p = ''/* [cetest] include cycle detected: '' @ [dq] @ escape_for_line p @ [dq] @ '' */'' @ [nl]"

definition skip_marker :: "path \<Rightarrow> string" where
  "skip_marker p = ''/* [cetest] skipped duplicate include: '' @ [dq] @ escape_for_line p @ [dq] @ '' */'' @ [nl]"

definition begin_marker :: "path \<Rightarrow> string" where
  "begin_marker p = ''/* [cetest] begin inlined file: '' @ escape_for_line p @ '' */'' @ [nl]"

definition end_marker :: "path \<Rightarrow> string" where
  "end_marker p = ''/* [cetest] end inlined file: '' @ escape_for_line p @ '' */'' @ [nl]"

definition inlined_marker :: "string \<Rightarrow> path \<Rightarrow> string" where
  "inlined_marker inc_name resolved =
     ''/* [cetest] inlined: '' @ [dq] @ inc_name @ [dq] @ '' -> '' @ [dq] @ escape_for_line resolved @ [dq] @ '' */'' @ [nl]"

definition line_directive :: "nat \<Rightarrow> path \<Rightarrow> string" where
  "line_directive n p = ''#line '' @ dec n @ '' '' @ [dq] @ escape_for_line p @ [dq] @ [nl]"

definition file_header :: "flat_cfg \<Rightarrow> path \<Rightarrow> string" where
  "file_header cfg p =
     (if include_debug_comments cfg then begin_marker p else []) @
     (if emit_line_directives cfg then line_directive 1 p else [])"

definition file_footer :: "flat_cfg \<Rightarrow> path \<Rightarrow> string" where
  "file_footer cfg p = (if include_debug_comments cfg then end_marker p else [])"

definition before_include :: "flat_cfg \<Rightarrow> string \<Rightarrow> path \<Rightarrow> string" where
  "before_include cfg inc_name resolved =
     (if include_debug_comments cfg then inlined_marker inc_name resolved else [])"

definition after_include :: "flat_cfg \<Rightarrow> nat \<Rightarrow> path \<Rightarrow> string" where
  "after_include cfg line_no p =
     (if emit_line_directives cfg then line_directive (line_no + 1) p else [])"

subsection \<open>\<open>_resolve_include\<close> and \<open>_flatten_file\<close>\<close>

text \<open>
  \<open>_flatten_file\<close> calls itself for every resolved include, and nothing in its text
  bounds the depth. The model therefore takes fuel, the number of nested calls allowed, and
  returns \<open>None\<close> when it runs out: \<open>flatten_file (Suc n)\<close> is one call, whose include
  lines call \<open>flatten_file n\<close>. \<open>flatten_lines\<close> is the \<open>for line in
  src.splitlines(True)\<close> loop; its result is the text of the pieces it appends to
  \<open>out\<close>. An exception of \<open>_read_text\<close> leaves every enclosing call.
\<close>

definition resolve_include :: "flat_cfg \<Rightarrow> fsys \<Rightarrow> string \<Rightarrow> path \<Rightarrow> path option" where
  "resolve_include cfg fs name including_file =
     (if is_file fs (sibling fs including_file name) then Some (sibling fs including_file name)
      else find (is_file fs) (map (\<lambda>d. child fs d name) (global_search cfg)))"

fun flatten_file ::
    "nat \<Rightarrow> flat_cfg \<Rightarrow> fsys \<Rightarrow> path \<Rightarrow> flat_state \<Rightarrow> ((flat_error + string) \<times> flat_state) option"
  and flatten_lines ::
    "nat \<Rightarrow> flat_cfg \<Rightarrow> fsys \<Rightarrow> path \<Rightarrow> nat \<Rightarrow> string list \<Rightarrow> flat_state
       \<Rightarrow> ((flat_error + string) \<times> flat_state) option" where
  "flatten_file 0 cfg fs p0 st = None"
| "flatten_file (Suc n) cfg fs p0 st =
     (let p = expanduser fs p0; p_abs = norm_abs fs p in
      if p_abs \<in> set (stack st) then
        Some (Inr (if include_debug_comments cfg then cycle_marker p else []), st)
      else if inline_once cfg \<and> p_abs \<in> set (inlined st) then
        Some (Inr (if include_debug_comments cfg then skip_marker p else []), st)
      else
        let st1 = st\<lparr>stack := stack st @ [p_abs], inlined := List.insert p_abs (inlined st),
                     files_inlined := files_inlined st + 1\<rparr>
        in case read_text fs p of
             None \<Rightarrow> Some (Inl ReadFailure, st1)
           | Some src \<Rightarrow>
              (case flatten_lines n cfg fs p 0 (splitlines_keepends src) st1 of
                 None \<Rightarrow> None
               | Some (Inl e, st2) \<Rightarrow> Some (Inl e, st2)
               | Some (Inr body, st2) \<Rightarrow>
                   Some (Inr (file_header cfg p @ body @ file_footer cfg p),
                         st2\<lparr>stack := butlast (stack st2)\<rparr>)))"
| "flatten_lines n cfg fs p line_no [] st = Some (Inr [], st)"
| "flatten_lines n cfg fs p line_no (line # rest) st =
     (if strip_pragma_once cfg \<and> is_pragma_once line then
        flatten_lines n cfg fs p (line_no + 1) rest st
      else case match_include line of
        None \<Rightarrow>
         (case flatten_lines n cfg fs p (line_no + 1) rest st of
            None \<Rightarrow> None
          | Some (Inl e, st') \<Rightarrow> Some (Inl e, st')
          | Some (Inr out, st') \<Rightarrow> Some (Inr (line @ out), st'))
      | Some inc_name \<Rightarrow>
         (let st1 = st\<lparr>include_lines_seen := include_lines_seen st + 1\<rparr> in
          case resolve_include cfg fs inc_name p of
            None \<Rightarrow>
             (case flatten_lines n cfg fs p (line_no + 1) rest
                     (st1\<lparr>include_lines_unresolved := include_lines_unresolved st1 + 1\<rparr>) of
                None \<Rightarrow> None
              | Some (Inl e, st') \<Rightarrow> Some (Inl e, st')
              | Some (Inr out, st') \<Rightarrow> Some (Inr (line @ out), st'))
          | Some resolved \<Rightarrow>
             (case flatten_file n cfg fs resolved
                     (st1\<lparr>include_lines_inlined := include_lines_inlined st1 + 1\<rparr>) of
                None \<Rightarrow> None
              | Some (Inl e, st2) \<Rightarrow> Some (Inl e, st2)
              | Some (Inr txt, st2) \<Rightarrow>
                 (case flatten_lines n cfg fs p (line_no + 1) rest st2 of
                    None \<Rightarrow> None
                  | Some (Inl e, st') \<Rightarrow> Some (Inl e, st')
                  | Some (Inr out, st') \<Rightarrow>
                      Some (Inr (before_include cfg inc_name resolved @ txt @
                                 after_include cfg (line_no + 1) p @ out), st')))))"

text \<open>
  \<open>flatten_user_includes\<close>. The part before the first call of \<open>_flatten_file\<close>
  computes \<open>global_search\<close> from the build database and the extra directories, or raises
  \<open>ValueError\<close>; its loops run over finite lists. Its outcome is the argument
  \<open>search\<close>. The result pairs the text with the state, whose counters are the
  \<open>stats\<close>.
\<close>

definition flatten_user_includes ::
  "nat \<Rightarrow> fsys \<Rightarrow> path \<Rightarrow> flat_error + path list \<Rightarrow> bool \<Rightarrow> bool \<Rightarrow> bool \<Rightarrow> bool
     \<Rightarrow> ((flat_error + string) \<times> flat_state) option" where
  "flatten_user_includes fuel fs root_file0 search inline_once' strip_pragma_once'
       emit_line_directives' include_debug_comments' =
     (let root_file = expanduser fs root_file0 in
      if \<not> is_file fs root_file then Some (Inl FileNotFound, init_flat_state)
      else case search of
        Inl e \<Rightarrow> Some (Inl e, init_flat_state)
      | Inr dirs \<Rightarrow>
          flatten_file fuel
            \<lparr>inline_once = inline_once', strip_pragma_once = strip_pragma_once',
             emit_line_directives = emit_line_directives',
             include_debug_comments = include_debug_comments', global_search = dirs\<rparr>
            fs root_file init_flat_state)"

text \<open>The normalised paths of the regular files: the values that can enter the stack.\<close>

definition file_keys :: "fsys \<Rightarrow> string set" where
  "file_keys fs = {norm_abs fs (expanduser fs p) | p. is_file fs p}"

subsection \<open>Example file systems\<close>

text \<open>
  A file system given by a list of files with their texts, in which every path is already
  normalised; two headers that include each other; and a diamond.
\<close>

definition dirname :: "path \<Rightarrow> path" where
  "dirname p = rev (dropWhile (\<lambda>c. c \<noteq> CHR ''/'') (rev p))"

definition mem_fs :: "(path \<times> string) list \<Rightarrow> fsys" where
  "mem_fs files =
     \<lparr>expanduser = (\<lambda>p. p), is_file = (\<lambda>p. map_of files p \<noteq> None), norm_abs = (\<lambda>p. p),
      read_text = map_of files, sibling = (\<lambda>p name. dirname p @ name),
      child = (\<lambda>d name. d @ ''/'' @ name)\<rparr>"

definition inc_line :: "string \<Rightarrow> string" where
  "inc_line name = ''#include '' @ [dq] @ name @ [dq] @ [nl]"

definition cycle_files :: "(path \<times> string) list" where
  "cycle_files =
     [(''/src/a.h'', ''int a0;'' @ [nl] @ inc_line ''b.h'' @ ''int a1;'' @ [nl]),
      (''/src/b.h'', ''#pragma once'' @ [nl] @ inc_line ''a.h'' @ ''int b;'' @ [nl])]"

definition diamond_files :: "(path \<times> string) list" where
  "diamond_files =
     [(''/src/root.cpp'', inc_line ''b.h'' @ inc_line ''c.h'' @ ''int main() {}'' @ [nl]),
      (''/src/b.h'', inc_line ''d.h'' @ ''int b;'' @ [nl]),
      (''/src/c.h'', inc_line ''d.h'' @ ''int c;'' @ [nl]),
      (''/src/d.h'', ''int d;'' @ [nl])]"

text \<open>
  A file system in which a path may contain \<open>.\<close> and \<open>..\<close> segments, as the paths
  that \<open>_resolve_include\<close> builds do: \<open>normalize_path\<close> removes them, and a path
  names the file that its normal form names. In \<open>nested_diamond_files\<close> the two headers
  that include \<open>d.h\<close> lie in different directories, so that they reach it under
  different spellings.
\<close>

fun path_segments :: "string \<Rightarrow> string \<Rightarrow> string list" where
  "path_segments cur [] = [cur]"
| "path_segments cur (c # cs) =
     (if c = CHR ''/'' then cur # path_segments [] cs else path_segments (cur @ [c]) cs)"

fun collapse_dots :: "string list \<Rightarrow> string list \<Rightarrow> string list" where
  "collapse_dots acc [] = rev acc"
| "collapse_dots acc (x # xs) =
     (if x = ''..'' then collapse_dots (tl acc) xs
      else if x = [] \<or> x = ''.'' then collapse_dots acc xs
      else collapse_dots (x # acc) xs)"

definition normalize_path :: "path \<Rightarrow> path" where
  "normalize_path p = concat (map (\<lambda>x. CHR ''/'' # x) (collapse_dots [] (path_segments [] p)))"

definition tree_fs :: "(path \<times> string) list \<Rightarrow> fsys" where
  "tree_fs files =
     \<lparr>expanduser = (\<lambda>p. p), is_file = (\<lambda>p. map_of files (normalize_path p) \<noteq> None),
      norm_abs = normalize_path, read_text = (\<lambda>p. map_of files (normalize_path p)),
      sibling = (\<lambda>p name. dirname p @ name), child = (\<lambda>d name. d @ ''/'' @ name)\<rparr>"

definition nested_diamond_files :: "(path \<times> string) list" where
  "nested_diamond_files =
     [(''/src/root.cpp'', inc_line ''x/b.h'' @ inc_line ''y/c.h'' @ ''int main() {}'' @ [nl]),
      (''/src/x/b.h'', inc_line ''../d.h'' @ ''int b;'' @ [nl]),
      (''/src/y/c.h'', inc_line ''../d.h'' @ ''int c;'' @ [nl]),
      (''/src/d.h'', ''int d;'' @ [nl])]"

subsection \<open>Describing a run of the flattener\<close>

text \<open>
  A line is inert for the file \<open>p\<close> when the loop of \<open>_flatten_file\<close> does not
  descend at it: it is a \<open>#pragma once\<close> line that is stripped, or no quoted include,
  or a quoted include that does not resolve. \<open>kept cfg ls\<close> is what the loop emits for
  inert lines \<open>ls\<close>: all of them but the stripped ones. \<open>view\<close> is the part of the
  state that decides what \<open>_flatten_file\<close> does and counts the bodies inlined: the
  stack, the set \<open>inlined\<close> and the counter \<open>files_inlined\<close>. \<open>yields_file\<close> and
  \<open>yields_lines\<close> say that from every state with the view \<open>V\<close> a call returns the
  text \<open>t\<close> and a state with the view \<open>V'\<close>.
\<close>

definition inert :: "flat_cfg \<Rightarrow> fsys \<Rightarrow> path \<Rightarrow> string \<Rightarrow> bool" where
  "inert cfg fs p line \<longleftrightarrow>
     (strip_pragma_once cfg \<and> is_pragma_once line) \<or>
     (case match_include line of None \<Rightarrow> True | Some name \<Rightarrow> resolve_include cfg fs name p = None)"

definition kept :: "flat_cfg \<Rightarrow> string list \<Rightarrow> string" where
  "kept cfg ls = concat (filter (\<lambda>l. \<not> (strip_pragma_once cfg \<and> is_pragma_once l)) ls)"

definition view :: "flat_state \<Rightarrow> string list \<times> string set \<times> nat" where
  "view st = (stack st, set (inlined st), files_inlined st)"

definition yields_file ::
  "nat \<Rightarrow> flat_cfg \<Rightarrow> fsys \<Rightarrow> path \<Rightarrow> string list \<times> string set \<times> nat \<Rightarrow> string
     \<Rightarrow> string list \<times> string set \<times> nat \<Rightarrow> bool" where
  "yields_file n cfg fs p V t V' \<longleftrightarrow>
     (\<forall>s. view s = V \<longrightarrow> (\<exists>s'. flatten_file n cfg fs p s = Some (Inr t, s') \<and> view s' = V'))"

definition yields_lines ::
  "nat \<Rightarrow> flat_cfg \<Rightarrow> fsys \<Rightarrow> path \<Rightarrow> nat \<Rightarrow> string list \<Rightarrow> string list \<times> string set \<times> nat
     \<Rightarrow> string \<Rightarrow> string list \<times> string set \<times> nat \<Rightarrow> bool" where
  "yields_lines n cfg fs p lno ls V t V' \<longleftrightarrow>
     (\<forall>s. view s = V \<longrightarrow>
        (\<exists>s'. flatten_lines n cfg fs p lno ls s = Some (Inr t, s') \<and> view s' = V'))"

chapter \<open>Properties\<close>

section \<open>The group prober\<close>

declare search_loop.simps [simp del]

lemma map_of_snoc:
  "map_of (xs @ [(i, a)]) j = (case map_of xs j of Some b \<Rightarrow> Some b | None \<Rightarrow> if j = i then Some a else None)"
  by (induction xs) (auto split: option.splits)

lemma test_hit:
  "\<not> cancelled w (polls st) \<Longrightarrow> map_of (attempts_by_idx st) i = Some a \<Longrightarrow>
   test w p s f cs i st = (Inr a, st\<lparr>polls := Suc (polls st)\<rparr>)"
  by (simp add: test_def)

lemma test_fresh:
  "\<not> cancelled w (polls st) \<Longrightarrow> map_of (attempts_by_idx st) i = None \<Longrightarrow> i < length cs \<Longrightarrow>
   compile_cached w i \<noteq> Aborted \<Longrightarrow>
   test w p s f cs i st =
     (Inr (attempt_of p s f (cs ! i) (compile_cached w i)),
      st\<lparr>polls := Suc (polls st), calls := calls st @ [i],
         attempts_by_idx := attempts_by_idx st @ [(i, attempt_of p s f (cs ! i) (compile_cached w i))],
         inc_reason := (case reason_of (cs ! i) (compile_cached w i) of Some m \<Rightarrow> Some m | None \<Rightarrow> inc_reason st)\<rparr>)"
  by (cases "compile_cached w i") (simp_all add: test_def Let_def)

lemma test_Inr:
  assumes "test w p s f cs i st = (Inr a, st')"
  shows "\<not> cancelled w (polls st) \<and>
    (case map_of (attempts_by_idx st) i of
       Some b \<Rightarrow> a = b \<and> st' = st\<lparr>polls := Suc (polls st)\<rparr>
     | None \<Rightarrow> i < length cs \<and> compile_cached w i \<noteq> Aborted \<and>
         a = attempt_of p s f (cs ! i) (compile_cached w i) \<and>
         st' = st\<lparr>polls := Suc (polls st), calls := calls st @ [i],
           attempts_by_idx := attempts_by_idx st @ [(i, a)],
           inc_reason := (case reason_of (cs ! i) (compile_cached w i) of Some m \<Rightarrow> Some m | None \<Rightarrow> inc_reason st)\<rparr>)"
  using assms
  by (cases "compile_cached w i") (auto simp: test_def Let_def split: option.splits if_splits)

lemma test_Inl:
  assumes "test w p s f cs i st = (Inl e, st')"
  shows "\<forall>j \<in> set (calls st'). j \<in> set (calls st) \<or> compile_cached w j = Aborted"
  using assms
  by (cases "compile_cached w i") (auto simp: test_def Let_def split: option.splits if_splits)

lemma reason_of_fault: "reason_of ci r \<noteq> None \<longleftrightarrow> is_fault r"
  by (cases r) simp_all

lemma fault_not_ok: "is_fault r \<Longrightarrow> \<not> ok (attempt_of p s f ci r)"
  by (cases r) (simp_all add: ok_def mk_attempt_def CODE_TIMEOUT_def CODE_TRANSPORT_ERROR_def)

lemma test_step:
  assumes t: "test w p s f cs i st = (Inr a, st')"
    and c: "consistent w p s f cs st" and cl: "clean w st"
  shows "consistent w p s f cs st'"
    and "map_of (attempts_by_idx st') i = Some a"
    and "a = attempt_of p s f (cs ! i) (compile_cached w i)"
    and "i < length cs"
    and "\<And>j b. map_of (attempts_by_idx st) j = Some b \<Longrightarrow> map_of (attempts_by_idx st') j = Some b"
    and "is_fault (compile_cached w i) \<Longrightarrow> faulted w cs st' i \<and> inc_reason st' \<noteq> None"
    and "\<not> is_fault (compile_cached w i) \<Longrightarrow> clean w st'"
    and "length (calls st') \<le> Suc (length (calls st))"
proof -
  note T = test_Inr[OF t]
  show "consistent w p s f cs st'"
  proof (cases "map_of (attempts_by_idx st) i")
    case None
    with T have st': "st' = st\<lparr>polls := Suc (polls st), calls := calls st @ [i],
           attempts_by_idx := attempts_by_idx st @ [(i, a)],
           inc_reason := (case reason_of (cs ! i) (compile_cached w i) of Some m \<Rightarrow> Some m | None \<Rightarrow> inc_reason st)\<rparr>"
      and a: "a = attempt_of p s f (cs ! i) (compile_cached w i)" and i: "i < length cs" by simp_all
    from None have "i \<notin> fst ` set (attempts_by_idx st)" by (simp add: map_of_eq_None_iff)
    with c have "i \<notin> set (calls st)" unfolding consistent_def by (metis set_map)
    with c a i show ?thesis unfolding consistent_def st'
      by (auto simp: map_add_def split: option.splits if_splits)
  next
    case (Some b)
    with T c show ?thesis by (simp add: consistent_def)
  qed
  show "map_of (attempts_by_idx st') i = Some a"
    using T by (auto simp: map_add_def split: option.splits)
  show "a = attempt_of p s f (cs ! i) (compile_cached w i)"
    using T c by (auto simp: consistent_def split: option.splits)
  show "i < length cs"
    using T c by (auto simp: consistent_def split: option.splits)
  show "\<And>j b. map_of (attempts_by_idx st) j = Some b \<Longrightarrow> map_of (attempts_by_idx st') j = Some b"
    using T by (auto simp: map_add_def split: option.splits)
  have hit_in: "\<And>b. map_of (attempts_by_idx st) i = Some b \<Longrightarrow> i \<in> set (calls st)"
  proof -
    fix b assume "map_of (attempts_by_idx st) i = Some b"
    then have "i \<in> fst ` set (attempts_by_idx st)" by (metis map_of_eq_None_iff option.distinct(1))
    with c show "i \<in> set (calls st)" unfolding consistent_def by (metis set_map)
  qed
  show "is_fault (compile_cached w i) \<Longrightarrow> faulted w cs st' i \<and> inc_reason st' \<noteq> None"
  proof -
    assume F: "is_fault (compile_cached w i)"
    show ?thesis
    proof (cases "map_of (attempts_by_idx st) i")
      case None
      with T F cl show ?thesis
        using reason_of_fault[of "cs ! i" "compile_cached w i"]
        by (auto simp: faulted_def clean_def split: option.splits)
    next
      case (Some b)
      with hit_in cl F show ?thesis by (auto simp: clean_def)
    qed
  qed
  show "\<not> is_fault (compile_cached w i) \<Longrightarrow> clean w st'"
    using T cl reason_of_fault[of "cs ! i" "compile_cached w i"]
    by (auto simp: clean_def split: option.splits)
  show "length (calls st') \<le> Suc (length (calls st))"
    using T by (auto split: option.splits)
qed


lemma loop_general:
  assumes "search_loop w p s f cs newest low high st = (r, st')"
    and "consistent w p s f cs st" and "clean w st"
    and "map_of (attempts_by_idx st) low \<noteq> None" and "map_of (attempts_by_idx st) high \<noteq> None"
  shows "case r of
           Inl e \<Rightarrow> (\<forall>j \<in> set (calls st'). \<not> is_fault (compile_cached w j))
         | Inr (Returned g) \<Rightarrow>
             (\<exists>i. faulted w cs st' i \<and> inc_reason st' \<noteq> None \<and> consistent w p s f cs st' \<and>
                  g = summary p s f (Some newest) None
                        (Some (attempt_of p s f (cs ! i) (compile_cached w i)))
                        (tested st') (inc_reason st'))
         | Inr (Exited l h) \<Rightarrow>
             consistent w p s f cs st' \<and> clean w st' \<and>
             map_of (attempts_by_idx st') l \<noteq> None \<and> map_of (attempts_by_idx st') h \<noteq> None"
  using assms
proof (induction "high - low" arbitrary: low high st rule: less_induct)
  case less
  note L = less.prems(1) and C = less.prems(2) and CL = less.prems(3)
    and lo = less.prems(4) and hi = less.prems(5)
  show ?case
  proof (cases "1 < high - low")
    case False
    with L have "r = Inr (Exited low high)" "st' = st"
      by (simp_all add: search_loop.simps)
    with C CL lo hi show ?thesis by simp
  next
    case True
    define st1 where "st1 = st\<lparr>polls := Suc (polls st)\<rparr>"
    define mid where "mid = (low + high) div 2"
    have C1: "consistent w p s f cs st1" and CL1: "clean w st1"
      using C CL by (simp_all add: st1_def consistent_def clean_def)
    have lo1: "map_of (attempts_by_idx st1) low \<noteq> None"
      and hi1: "map_of (attempts_by_idx st1) high \<noteq> None"
      using lo hi by (simp_all add: st1_def)
    show ?thesis
    proof (cases "cancelled w (polls st)")
      case True
      with \<open>1 < high - low\<close> L have "r = Inl CancelledByUser" "st' = st1"
        by (simp_all add: search_loop.simps st1_def)
      with CL1 show ?thesis by (simp add: clean_def)
    next
      case nc: False
      obtain tr st2 where T: "test w p s f cs mid st1 = (tr, st2)" by (cases "test w p s f cs mid st1")
      show ?thesis
      proof (cases tr)
        case (Inl e)
        with T nc \<open>1 < high - low\<close> L have "r = Inl e" "st' = st2"
          by (simp_all add: search_loop.simps st1_def mid_def)
        moreover from T Inl have "\<forall>j \<in> set (calls st2). j \<in> set (calls st1) \<or> compile_cached w j = Aborted"
          using test_Inl by blast
        ultimately show ?thesis using CL1 by (auto simp: clean_def)
      next
        case (Inr am)
        with T have T': "test w p s f cs mid st1 = (Inr am, st2)" by simp
        note S = test_step[OF T' C1 CL1]
        show ?thesis
        proof (cases "is_fault (compile_cached w mid)")
          case True
          with S(6) have F: "faulted w cs st2 mid" "inc_reason st2 \<noteq> None" by simp_all
          with T' nc \<open>1 < high - low\<close> L
          have "r = Inr (Returned (summary p s f (Some newest) None (Some am) (tested st2) (inc_reason st2)))"
            "st' = st2"
            by (auto simp: search_loop.simps st1_def mid_def)
          with F S(1) S(3) show ?thesis by auto
        next
          case False
          with S(7) have CL2: "clean w st2" by simp
          then have i2: "inc_reason st2 = None" by (simp add: clean_def)
          have lo2: "map_of (attempts_by_idx st2) low \<noteq> None"
            and hi2: "map_of (attempts_by_idx st2) high \<noteq> None"
            using S(5) lo1 hi1 by auto
          have mid2: "map_of (attempts_by_idx st2) mid \<noteq> None" using S(2) by simp
          show ?thesis
          proof (cases "ok am")
            case True
            with T' nc \<open>1 < high - low\<close> L i2
            have R: "search_loop w p s f cs newest mid high st2 = (r, st')"
              by (simp add: search_loop.simps[of w p s f cs newest low high st] st1_def mid_def)
            have "high - mid < high - low" using \<open>1 < high - low\<close> by (simp add: mid_def)
            from less.hyps[OF this R S(1) CL2 mid2 hi2] show ?thesis .
          next
            case False
            with T' nc \<open>1 < high - low\<close> L i2
            have R: "search_loop w p s f cs newest low mid st2 = (r, st')"
              by (simp add: search_loop.simps[of w p s f cs newest low high st] st1_def mid_def)
            have "mid - low < high - low" using \<open>1 < high - low\<close> by (simp add: mid_def)
            from less.hyps[OF this R S(1) CL2 lo2 mid2] show ?thesis .
          qed
        qed
      qed
    qed
  qed
qed


lemma cached_not_fault:
  assumes "consistent w p s f cs st" and "clean w st" and "map_of (attempts_by_idx st) i \<noteq> None"
  shows "\<not> is_fault (compile_cached w i)"
proof -
  from assms(3) have "i \<in> fst ` set (attempts_by_idx st)" by (metis map_of_eq_None_iff)
  with assms(1) have "i \<in> set (calls st)" unfolding consistent_def by (metis set_map)
  with assms(2) show ?thesis by (simp add: clean_def)
qed

lemma init_consistent: "consistent w p s f cs init_pstate" and init_clean: "clean w init_pstate"
  by (simp_all add: consistent_def clean_def init_pstate_def)

lemma probe_general:
  assumes P: "probe_group_binary w p s f cs = (r, st)"
  shows "case r of
           Inl e \<Rightarrow> (\<forall>j \<in> set (calls st). \<not> is_fault (compile_cached w j))
         | Inr g \<Rightarrow> summary_sound g \<and> fault_report w p s f cs st g"
proof (cases "length cs = 0")
  case True
  with P show ?thesis
    by (auto simp: probe_group_binary_def summary_def summary_sound_def fault_report_def init_clean)
next
  case n0: False
  obtain r1 st1 where T1: "test w p s f cs 0 init_pstate = (r1, st1)"
    by (cases "test w p s f cs 0 init_pstate")
  show ?thesis
  proof (cases r1)
    case (Inl e)
    with P n0 T1 have "r = Inl e" "st = st1" by (auto simp: probe_group_binary_def)
    moreover from T1 Inl have "\<forall>j \<in> set (calls st1). j \<in> set (calls init_pstate) \<or> compile_cached w j = Aborted"
      using test_Inl by blast
    ultimately show ?thesis by (auto simp: init_pstate_def)
  next
    case (Inr newest)
    with T1 have T1': "test w p s f cs 0 init_pstate = (Inr newest, st1)" by simp
    note S1 = test_step[OF T1' init_consistent init_clean]
    show ?thesis
    proof (cases "is_fault (compile_cached w 0)")
      case True
      with S1(6) have F: "faulted w cs st1 0" "inc_reason st1 \<noteq> None" by simp_all
      with P n0 T1' have "r = Inr (summary p s f None None (Some newest) (tested st1) (inc_reason st1))" "st = st1"
        by (auto simp: probe_group_binary_def)
      with F S1(3) True show ?thesis
        by (auto simp: summary_def summary_sound_def fault_report_def fault_not_ok faulted_def)
    next
      case nf0: False
      with S1(7) have CL1: "clean w st1" by simp
      then have i1: "inc_reason st1 = None" by (simp add: clean_def)
      show ?thesis
      proof (cases "ok newest")
        case False
        with P n0 T1' i1 have "r = Inr (summary p s f None None (Some newest) [newest] None)" "st = st1"
          by (auto simp: probe_group_binary_def)
        with False CL1 show ?thesis
          by (auto simp: summary_def summary_sound_def fault_report_def)
      next
        case okn: True
        show ?thesis
        proof (cases "length cs = 1")
          case True
          with P n0 T1' i1 okn have "r = Inr (summary p s f (Some newest) (Some newest) None [newest] None)" "st = st1"
            by (auto simp: probe_group_binary_def)
          with okn CL1 show ?thesis
            by (auto simp: summary_def summary_sound_def fault_report_def)
        next
          case n1: False
          obtain r2 st2 where T2: "test w p s f cs (length cs - 1) st1 = (r2, st2)"
            by (cases "test w p s f cs (length cs - 1) st1")
          show ?thesis
          proof (cases r2)
            case (Inl e)
            with P n0 n1 T1' i1 okn T2 have "r = Inl e" "st = st2"
              by (auto simp: probe_group_binary_def)
            moreover from T2 Inl have "\<forall>j \<in> set (calls st2). j \<in> set (calls st1) \<or> compile_cached w j = Aborted"
              using test_Inl by blast
            ultimately show ?thesis using CL1 by (auto simp: clean_def)
          next
            case (Inr oldest)
            with T2 have T2': "test w p s f cs (length cs - 1) st1 = (Inr oldest, st2)" by simp
            note S2 = test_step[OF T2' S1(1) CL1]
            show ?thesis
            proof (cases "is_fault (compile_cached w (length cs - 1))")
              case True
              with S2(6) have F: "faulted w cs st2 (length cs - 1)" "inc_reason st2 \<noteq> None" by simp_all
              with P n0 n1 T1' i1 okn T2'
              have "r = Inr (summary p s f (Some newest) None (Some oldest) (tested st2) (inc_reason st2))" "st = st2"
                by (auto simp: probe_group_binary_def)
              with F S2(3) True okn show ?thesis
                by (auto simp: summary_def summary_sound_def fault_report_def fault_not_ok faulted_def)
            next
              case False
              with S2(7) have CL2: "clean w st2" by simp
              then have i2: "inc_reason st2 = None" by (simp add: clean_def)
              show ?thesis
              proof (cases "ok oldest")
                case True
                with P n0 n1 T1' i1 okn T2' i2
                have "r = Inr (summary p s f (Some newest) (Some oldest) None (tested st2) None)" "st = st2"
                  by (auto simp: probe_group_binary_def)
                with okn True CL2 show ?thesis
                  by (auto simp: summary_def summary_sound_def fault_report_def)
              next
                case nok: False
                obtain r3 st3 where L: "search_loop w p s f cs newest 0 (length cs - 1) st2 = (r3, st3)"
                  by (cases "search_loop w p s f cs newest 0 (length cs - 1) st2")
                have c0: "map_of (attempts_by_idx st2) 0 \<noteq> None" using S2(5)[OF S1(2)] by simp
                have cn: "map_of (attempts_by_idx st2) (length cs - 1) \<noteq> None" using S2(2) by simp
                note G = loop_general[OF L S2(1) CL2 c0 cn]
                show ?thesis
                proof (cases r3)
                  case (Inl e)
                  with P n0 n1 T1' i1 okn T2' i2 nok L have "r = Inl e" "st = st3"
                    by (auto simp: probe_group_binary_def)
                  with G Inl show ?thesis by simp
                next
                  case (Inr ex)
                  show ?thesis
                  proof (cases ex)
                    case (Returned g)
                    with Inr P n0 n1 T1' i1 okn T2' i2 nok L have "r = Inr g" "st = st3"
                      by (auto simp: probe_group_binary_def)
                    with G Inr Returned okn show ?thesis
                      by (auto simp: summary_def summary_sound_def fault_report_def fault_not_ok faulted_def)
                  next
                    case (Exited low high)
                    with G Inr have C3: "consistent w p s f cs st3" and CL3: "clean w st3"
                      and cl: "map_of (attempts_by_idx st3) low \<noteq> None"
                      and ch: "map_of (attempts_by_idx st3) high \<noteq> None" by simp_all
                    obtain r4 st4 where T4: "test w p s f cs low st3 = (r4, st4)"
                      by (cases "test w p s f cs low st3")
                    show ?thesis
                    proof (cases r4)
                      case (Inl e)
                      with Inr Exited P n0 n1 T1' i1 okn T2' i2 nok L T4 have "r = Inl e" "st = st4"
                        by (auto simp: probe_group_binary_def)
                      moreover from T4 Inl have "\<forall>j \<in> set (calls st4). j \<in> set (calls st3) \<or> compile_cached w j = Aborted"
                        using test_Inl by blast
                      ultimately show ?thesis using CL3 by (auto simp: clean_def)
                    next
                      case r4: (Inr lowest_ok)
                      with T4 have T4': "test w p s f cs low st3 = (Inr lowest_ok, st4)" by simp
                      note S4 = test_step[OF T4' C3 CL3]
                      have CL4: "clean w st4" using S4(7) cached_not_fault[OF C3 CL3 cl] by simp
                      have ch4: "map_of (attempts_by_idx st4) high \<noteq> None" using S4(5) ch by auto
                      obtain r5 st5 where T5: "test w p s f cs high st4 = (r5, st5)"
                        by (cases "test w p s f cs high st4")
                      show ?thesis
                      proof (cases r5)
                        case (Inl e)
                        with Inr Exited P n0 n1 T1' i1 okn T2' i2 nok L T4' T5 have "r = Inl e" "st = st5"
                          by (auto simp: probe_group_binary_def)
                        moreover from T5 Inl have "\<forall>j \<in> set (calls st5). j \<in> set (calls st4) \<or> compile_cached w j = Aborted"
                          using test_Inl by blast
                        ultimately show ?thesis using CL4 by (auto simp: clean_def)
                      next
                        case r5: (Inr first_fail)
                        with T5 have T5': "test w p s f cs high st4 = (Inr first_fail, st5)" by simp
                        note S5 = test_step[OF T5' S4(1) CL4]
                        have CL5: "clean w st5" using S5(7) cached_not_fault[OF S4(1) CL4 ch4] by simp
                        then have i5: "inc_reason st5 = None" by (simp add: clean_def)
                        from Inr Exited P n0 n1 T1' i1 okn T2' i2 nok L T4' T5' i5
                        have "r = Inr (summary p s f (Some newest)
                                 (if ok lowest_ok then Some lowest_ok else None)
                                 (if \<not> ok first_fail then Some first_fail else None)
                                 (tested st5) None)" "st = st5"
                          by (auto simp: probe_group_binary_def)
                        with okn CL5 show ?thesis
                          by (auto simp: summary_def summary_sound_def fault_report_def)
                      qed
                    qed
                  qed
                qed
              qed
            qed
          qed
        qed
      qed
    qed
  qed
qed


lemma test_total:
  assumes "\<not> cancelled w (polls st)" and "i < length cs" and "compile_cached w i \<noteq> Aborted"
  shows "\<exists>a st'. test w p s f cs i st = (Inr a, st')"
proof (cases "map_of (attempts_by_idx st) i")
  case None
  with assms show ?thesis using test_fresh by blast
next
  case (Some a)
  with assms show ?thesis using test_hit by blast
qed

lemma loop_boundary:
  assumes nc: "\<forall>q. \<not> cancelled w q"
    and okk: "\<forall>i\<le>k. \<exists>t. compile_cached w i = Response 0 t"
    and fl: "\<forall>i. k < i \<and> i < length cs \<longrightarrow> (\<exists>c t. compile_cached w i = Response c t \<and> c \<noteq> 0)"
    and "consistent w p s f cs st" and "clean w st"
    and "low \<le> k" and "k < high" and "high < length cs"
    and "map_of (attempts_by_idx st) low \<noteq> None" and "map_of (attempts_by_idx st) high \<noteq> None"
    and "high - low \<le> 2 ^ c"
  shows "\<exists>st'. search_loop w p s f cs newest low high st = (Inr (Exited k (Suc k)), st') \<and>
           consistent w p s f cs st' \<and> clean w st' \<and>
           map_of (attempts_by_idx st') k \<noteq> None \<and> map_of (attempts_by_idx st') (Suc k) \<noteq> None \<and>
           length (calls st') \<le> length (calls st) + c"
  using assms(4-)
proof (induction "high - low" arbitrary: low high st c rule: less_induct)
  case less
  note C = less.prems(1) and CL = less.prems(2) and lk = less.prems(3) and kh = less.prems(4)
    and hn = less.prems(5) and lo = less.prems(6) and hi = less.prems(7) and pw = less.prems(8)
  show ?case
  proof (cases "1 < high - low")
    case False
    with lk kh have "low = k" "high = Suc k" by simp_all
    with False C CL lo hi show ?thesis by (simp add: search_loop.simps)
  next
    case True
    define st1 where "st1 = st\<lparr>polls := Suc (polls st)\<rparr>"
    define mid where "mid = (low + high) div 2"
    have C1: "consistent w p s f cs st1" and CL1: "clean w st1"
      using C CL by (simp_all add: st1_def consistent_def clean_def)
    have lo1: "map_of (attempts_by_idx st1) low \<noteq> None"
      and hi1: "map_of (attempts_by_idx st1) high \<noteq> None"
      using lo hi by (simp_all add: st1_def)
    have midn: "mid < length cs" using hn True by (simp add: mid_def)
    have resp: "\<exists>c t. compile_cached w mid = Response c t \<and> (c = 0 \<longleftrightarrow> mid \<le> k)"
    proof (cases "mid \<le> k")
      case True with okk show ?thesis by auto
    next
      case False with fl midn show ?thesis by (metis not_le)
    qed
    then obtain cd t where cm: "compile_cached w mid = Response cd t" and cd: "cd = 0 \<longleftrightarrow> mid \<le> k"
      by blast
    from cm have na: "compile_cached w mid \<noteq> Aborted" and nf: "\<not> is_fault (compile_cached w mid)"
      by simp_all
    obtain am st2 where T: "test w p s f cs mid st1 = (Inr am, st2)"
      using test_total[OF _ midn na] nc by blast
    note S = test_step[OF T C1 CL1]
    from S(7) nf have CL2: "clean w st2" by simp
    then have i2: "inc_reason st2 = None" by (simp add: clean_def)
    have lo2: "map_of (attempts_by_idx st2) low \<noteq> None"
      and hi2: "map_of (attempts_by_idx st2) high \<noteq> None"
      using S(5) lo1 hi1 by auto
    have mid2: "map_of (attempts_by_idx st2) mid \<noteq> None" using S(2) by simp
    have okam: "ok am \<longleftrightarrow> mid \<le> k" using S(3) cm cd by (simp add: ok_def mk_attempt_def)
    from True pw obtain c' where c: "c = Suc c'" by (cases c) auto
    have len1: "length (calls st1) = length (calls st)" by (simp add: st1_def)
    show ?thesis
    proof (cases "mid \<le> k")
      case mk: True
      with T nc True i2 okam
      have R: "search_loop w p s f cs newest low high st = search_loop w p s f cs newest mid high st2"
        by (simp add: search_loop.simps[of w p s f cs newest low high st] st1_def mid_def)
      have d: "high - mid < high - low" using True by (simp add: mid_def)
      have p2: "high - mid \<le> 2 ^ c'" using pw True unfolding c mid_def by simp
      from less.hyps[OF d S(1) CL2 mk kh hn mid2 hi2 p2] S(8) len1 c R show ?thesis
        by auto
    next
      case mk: False
      then have km: "k < mid" by simp
      with T nc True i2 okam
      have R: "search_loop w p s f cs newest low high st = search_loop w p s f cs newest low mid st2"
        by (simp add: search_loop.simps[of w p s f cs newest low high st] st1_def mid_def)
      have d: "mid - low < high - low" using True by (simp add: mid_def)
      have p2: "mid - low \<le> 2 ^ c'" using pw True unfolding c mid_def by simp
      from less.hyps[OF d S(1) CL2 lk km midn lo2 mid2 p2] S(8) len1 c R show ?thesis
        by auto
    qed
  qed
qed

lemma length_tested: "length (tested st) = length (attempts_by_idx st)"
proof -
  have "\<And>ks. set ks \<subseteq> fst ` set (attempts_by_idx st) \<Longrightarrow>
     length (List.map_filter (map_of (attempts_by_idx st)) ks) = length ks"
  proof -
    fix ks show "set ks \<subseteq> fst ` set (attempts_by_idx st) \<Longrightarrow>
     length (List.map_filter (map_of (attempts_by_idx st)) ks) = length ks"
    proof (induction ks)
      case Nil show ?case by (simp add: List.map_filter_simps)
    next
      case (Cons x ks)
      then have "map_of (attempts_by_idx st) x \<noteq> None" by (simp add: map_of_eq_None_iff)
      with Cons show ?case by (auto simp: List.map_filter_simps)
    qed
  qed
  then show ?thesis by (simp add: tested_def)
qed


lemma test_cached:
  assumes "\<not> cancelled w (polls st)" and "map_of (attempts_by_idx st) i \<noteq> None"
    and "consistent w p s f cs st"
  shows "test w p s f cs i st =
           (Inr (attempt_of p s f (cs ! i) (compile_cached w i)), st\<lparr>polls := Suc (polls st)\<rparr>)"
proof -
  from assms(2) obtain b where b: "map_of (attempts_by_idx st) i = Some b" by blast
  with assms(3) have "b = attempt_of p s f (cs ! i) (compile_cached w i)"
    by (simp add: consistent_def)
  with test_hit[OF assms(1) b] show ?thesis by simp
qed

lemma consistent_polls: "consistent w p s f cs (st\<lparr>polls := q\<rparr>) = consistent w p s f cs st"
  by (simp add: consistent_def)

subsection \<open>The boundary is found in logarithmically many compile calls\<close>

lemma probe_boundary_result:
  assumes kn: "0 \<le> k" "k < length cs - 1"
    and nc: "\<forall>q. \<not> cancelled w q"
    and okk: "\<forall>i\<le>k. \<exists>t. compile_cached w i = Response 0 t"
    and fl: "\<forall>i. k < i \<and> i < length cs \<longrightarrow> (\<exists>c t. compile_cached w i = Response c t \<and> c \<noteq> 0)"
    and P: "probe_group_binary w p s f cs = (r, st)"
  shows "r = Inr (summary p s f
                 (Some (attempt_of p s f (cs ! 0) (compile_cached w 0)))
                 (Some (attempt_of p s f (cs ! k) (compile_cached w k)))
                 (Some (attempt_of p s f (cs ! (k + 1)) (compile_cached w (k + 1))))
                 (tested st) None) \<and>
         consistent w p s f cs st \<and>
         length (attempts_by_idx st) = length (calls st) \<and> distinct (calls st) \<and>
         length (calls st) \<le> ceillog2 (length cs) + 2"
proof -
  let ?n = "length cs"
  let ?att = "\<lambda>i. attempt_of p s f (cs ! i) (compile_cached w i)"
  from kn have n2: "2 \<le> ?n" by linarith
  have resp: "\<And>i. i < ?n \<Longrightarrow> \<exists>c t. compile_cached w i = Response c t \<and> (c = 0 \<longleftrightarrow> i \<le> k)"
  proof -
    fix i assume "i < ?n"
    show "\<exists>c t. compile_cached w i = Response c t \<and> (c = 0 \<longleftrightarrow> i \<le> k)"
    proof (cases "i \<le> k")
      case True with okk show ?thesis by auto
    next
      case False with fl \<open>i < ?n\<close> show ?thesis by (metis not_le)
    qed
  qed
  have okatt: "\<And>i. i < ?n \<Longrightarrow> ok (?att i) \<longleftrightarrow> i \<le> k"
    using resp by (fastforce simp: ok_def mk_attempt_def)
  have nofault: "\<And>i. i < ?n \<Longrightarrow> \<not> is_fault (compile_cached w i) \<and> compile_cached w i \<noteq> Aborted"
    using resp by fastforce
  have z: "0 < ?n" and l: "?n - 1 < ?n" and kk: "k < ?n" and sk: "Suc k < ?n" using kn by auto
  obtain a1 st1 where T1: "test w p s f cs 0 init_pstate = (Inr a1, st1)"
    using test_total[OF _ z] nofault[OF z] nc by blast
  note S1 = test_step[OF T1 init_consistent init_clean]
  have CL1: "clean w st1" using S1(7) nofault[OF z] by simp
  have a1: "a1 = ?att 0" by (rule S1(3))
  obtain a2 st2 where T2: "test w p s f cs (?n - 1) st1 = (Inr a2, st2)"
    using test_total[OF _ l] nofault[OF l] nc by blast
  note S2 = test_step[OF T2 S1(1) CL1]
  have CL2: "clean w st2" using S2(7) nofault[OF l] by simp
  have a2: "a2 = ?att (?n - 1)" by (rule S2(3))
  have c0: "map_of (attempts_by_idx st2) 0 \<noteq> None" using S2(5)[OF S1(2)] by simp
  have cn: "map_of (attempts_by_idx st2) (?n - 1) \<noteq> None" using S2(2) by simp
  have pw: "?n - 1 - 0 \<le> 2 ^ ceillog2 ?n"
  proof -
    have "?n \<le> 2 ^ ceillog2 ?n" using ceillog2_le_iff[of ?n "ceillog2 ?n"] z by simp
    then show ?thesis by simp
  qed
  have k0: "0 \<le> k" by simp
  from loop_boundary[OF nc okk fl S2(1) CL2 k0 kn(2) l c0 cn pw, of a1]
  obtain st3 where L: "search_loop w p s f cs a1 0 (?n - 1) st2 = (Inr (Exited k (Suc k)), st3)"
    and C3: "consistent w p s f cs st3" and CL3: "clean w st3"
    and ck: "map_of (attempts_by_idx st3) k \<noteq> None"
    and csk: "map_of (attempts_by_idx st3) (Suc k) \<noteq> None"
    and len3: "length (calls st3) \<le> length (calls st2) + ceillog2 ?n" by blast
  define st4 where "st4 = st3\<lparr>polls := Suc (polls st3)\<rparr>"
  define st5 where "st5 = st4\<lparr>polls := Suc (polls st4)\<rparr>"
  have T4: "test w p s f cs k st3 = (Inr (?att k), st4)"
    unfolding st4_def using test_cached[OF _ ck C3] nc by blast
  have C4: "consistent w p s f cs st4" using C3 by (simp add: st4_def consistent_polls)
  have csk4: "map_of (attempts_by_idx st4) (Suc k) \<noteq> None" using csk by (simp add: st4_def)
  have T5: "test w p s f cs (Suc k) st4 = (Inr (?att (Suc k)), st5)"
    unfolding st5_def using test_cached[OF _ csk4 C4] nc by blast
  have i1: "inc_reason st1 = None" and i2: "inc_reason st2 = None" and i5: "inc_reason st5 = None"
    using CL1 CL2 CL3 by (simp_all add: clean_def st4_def st5_def)
  have o1: "ok a1" using okatt[OF z] a1 by simp
  have o2: "\<not> ok a2" using okatt[OF l] a2 kn by simp
  have o4: "ok (?att k)" using okatt[OF kk] by simp
  have o5: "\<not> ok (?att (Suc k))" using okatt[OF sk] by simp
  have "probe_group_binary w p s f cs =
          (Inr (summary p s f (Some a1) (Some (?att k)) (Some (?att (Suc k))) (tested st5) None), st5)"
    using n2 T1 T2 L T4 T5 i1 i2 i5 o1 o2 o4 o5
    by (auto simp: probe_group_binary_def Let_def)
  with P a1 have r: "r = Inr (summary p s f (Some (?att 0)) (Some (?att k)) (Some (?att (k + 1))) (tested st) None)"
    and st: "st = st5" by auto
  have C5: "consistent w p s f cs st5" using C4 by (simp add: st5_def consistent_polls)
  have "length (calls st5) = length (calls st3)" by (simp add: st4_def st5_def)
  moreover have "length (calls st2) \<le> 2" using S1(8) S2(8) by (simp add: init_pstate_def)
  ultimately have "length (calls st5) \<le> ceillog2 ?n + 2" using len3 by simp
  moreover have "distinct (calls st5)" using C5 by (simp add: consistent_def)
  moreover have "length (attempts_by_idx st5) = length (calls st5)"
    using C5 unfolding consistent_def by (metis length_map)
  ultimately show ?thesis using r st C5 by simp
qed

lemma tested_consistent:
  assumes "consistent w p s f cs st"
  shows "tested st = map (\<lambda>j. attempt_of p s f (cs ! j) (compile_cached w j)) (sort (calls st))"
proof -
  have k: "map fst (attempts_by_idx st) = calls st" using assms by (simp add: consistent_def)
  have "List.map_filter (map_of (attempts_by_idx st)) ks =
          map (\<lambda>j. attempt_of p s f (cs ! j) (compile_cached w j)) ks"
    if "set ks \<subseteq> set (calls st)" for ks
    using that
  proof (induction ks)
    case Nil
    show ?case by (simp add: List.map_filter_simps)
  next
    case (Cons j ks)
    then have "j \<in> fst ` set (attempts_by_idx st)" using k by (metis list.set_intros(1) set_map subsetD)
    then obtain a where a: "map_of (attempts_by_idx st) j = Some a"
      by (metis map_of_eq_None_iff not_None_eq)
    with assms have "a = attempt_of p s f (cs ! j) (compile_cached w j)"
      by (simp add: consistent_def)
    with a Cons show ?case by (simp add: List.map_filter_simps)
  qed
  from this[of "sort (calls st)"] k show ?thesis by (simp add: tested_def)
qed

text \<open>
  Claim C1. Let the candidate list have length \<open>n\<close>, let the probe not be cancelled, and
  let the compile of every index up to \<open>k\<close> succeed (result code 0) and the compile of
  every later index fail with a compiler error (a response with a non-zero code), where
  \<open>0 \<le> k < n - 1\<close>. Then \<open>_probe_group_binary\<close> returns a summary of the group
  whose \<open>highest_supported\<close> is the attempt at index 0 (the candidate's id, name and
  semver, result code 0 and the text of its response), whose \<open>lowest_supported\<close> is the
  attempt at index \<open>k\<close>, whose \<open>first_failure\<close> is the attempt at index \<open>k + 1\<close>
  with its non-zero code, and whose \<open>inconclusive_reason\<close> is \<open>None\<close>; its attempts
  are those of the compiled indices in index order; the indices compiled are pairwise
  distinct, they are the keys of \<open>attempts_by_idx\<close>, and there are at most
  \<open>\<lceil>log\<^sub>2 n\<rceil> + 2\<close> of them.
\<close>

theorem probe_finds_boundary:
  assumes kn: "0 \<le> k" "k < length cs - 1"
    and nc: "\<forall>q. \<not> cancelled w q"
    and okk: "\<forall>i\<le>k. \<exists>t. compile_cached w i = Response 0 t"
    and fl: "\<forall>i. k < i \<and> i < length cs \<longrightarrow> (\<exists>c t. compile_cached w i = Response c t \<and> c \<noteq> 0)"
    and P: "probe_group_binary w p s f cs = (r, st)"
  shows "\<exists>g t0 tk c t1.
           r = Inr g \<and>
           compile_cached w 0 = Response 0 t0 \<and> compile_cached w k = Response 0 tk \<and>
           compile_cached w (k + 1) = Response c t1 \<and> c \<noteq> 0 \<and>
           sum_platform g = p \<and> sum_series g = s \<and> sum_compiler_type g = f \<and>
           highest_supported g =
             Some \<lparr>att_platform = p, att_series = s, att_compiler_type = f,
                   att_compiler_id = ci_id (cs ! 0), att_compiler_name = ci_name (cs ! 0),
                   att_semver = ci_semver (cs ! 0), att_code = 0, att_stderr_text = t0\<rparr> \<and>
           lowest_supported g =
             Some \<lparr>att_platform = p, att_series = s, att_compiler_type = f,
                   att_compiler_id = ci_id (cs ! k), att_compiler_name = ci_name (cs ! k),
                   att_semver = ci_semver (cs ! k), att_code = 0, att_stderr_text = tk\<rparr> \<and>
           first_failure g =
             Some \<lparr>att_platform = p, att_series = s, att_compiler_type = f,
                   att_compiler_id = ci_id (cs ! (k + 1)), att_compiler_name = ci_name (cs ! (k + 1)),
                   att_semver = ci_semver (cs ! (k + 1)), att_code = c, att_stderr_text = t1\<rparr> \<and>
           inconclusive_reason g = None \<and>
           attempts g = map (\<lambda>i. attempt_of p s f (cs ! i) (compile_cached w i)) (sort (calls st)) \<and>
           length (attempts g) = length (calls st) \<and>
           length (attempts_by_idx st) = length (calls st) \<and> distinct (calls st) \<and>
           length (calls st) \<le> ceillog2 (length cs) + 2"
proof -
  note R = probe_boundary_result[OF kn nc okk fl P]
  from okk obtain t0 where c0: "compile_cached w 0 = Response 0 t0" by auto
  from okk obtain tk where ck: "compile_cached w k = Response 0 tk" by auto
  from kn have "k < k + 1 \<and> k + 1 < length cs" by auto
  with fl obtain c t1 where c1: "compile_cached w (k + 1) = Response c t1" and cn: "c \<noteq> 0"
    by blast
  define g where "g = summary p s f
                 (Some (attempt_of p s f (cs ! 0) (compile_cached w 0)))
                 (Some (attempt_of p s f (cs ! k) (compile_cached w k)))
                 (Some (attempt_of p s f (cs ! (k + 1)) (compile_cached w (k + 1))))
                 (tested st) None"
  have r: "r = Inr g" using R by (simp add: g_def)
  have C: "consistent w p s f cs st" using R by simp
  have a: "attempts g = map (\<lambda>i. attempt_of p s f (cs ! i) (compile_cached w i)) (sort (calls st))"
    using tested_consistent[OF C] by (simp add: g_def summary_def)
  have h: "highest_supported g =
             Some \<lparr>att_platform = p, att_series = s, att_compiler_type = f,
                   att_compiler_id = ci_id (cs ! 0), att_compiler_name = ci_name (cs ! 0),
                   att_semver = ci_semver (cs ! 0), att_code = 0, att_stderr_text = t0\<rparr>"
    by (simp add: g_def summary_def c0 mk_attempt_def)
  have l: "lowest_supported g =
             Some \<lparr>att_platform = p, att_series = s, att_compiler_type = f,
                   att_compiler_id = ci_id (cs ! k), att_compiler_name = ci_name (cs ! k),
                   att_semver = ci_semver (cs ! k), att_code = 0, att_stderr_text = tk\<rparr>"
    by (simp add: g_def summary_def ck mk_attempt_def)
  have ff: "first_failure g =
             Some \<lparr>att_platform = p, att_series = s, att_compiler_type = f,
                   att_compiler_id = ci_id (cs ! (k + 1)), att_compiler_name = ci_name (cs ! (k + 1)),
                   att_semver = ci_semver (cs ! (k + 1)), att_code = c, att_stderr_text = t1\<rparr>"
    using c1 by (simp add: g_def summary_def mk_attempt_def)
  have m: "sum_platform g = p" "sum_series g = s" "sum_compiler_type g = f"
    "inconclusive_reason g = None"
    by (simp_all add: g_def summary_def)
  have la: "length (attempts g) = length (calls st)" using a by simp
  from R have rest: "length (attempts_by_idx st) = length (calls st)" "distinct (calls st)"
    "length (calls st) \<le> ceillog2 (length cs) + 2" by simp_all
  from r c0 ck c1 cn m h l ff a la rest show ?thesis by blast
qed

text \<open>The instance of the specification: 16 candidates with the boundary at index 5.\<close>

theorem probe_finds_boundary_witness:
  "(5::nat) < length (demo_compilers 16) - 1 \<and>
   (\<exists>g. fst (probe_group_binary (boundary_worker 5) ''x86-64'' ''gcc'' ''gcc'' (demo_compilers 16))
          = Inr g \<and>
        highest_supported g =
          Some \<lparr>att_platform = ''x86-64'', att_series = ''gcc'', att_compiler_type = ''gcc'',
                att_compiler_id = ci_id (demo_compiler 0), att_compiler_name = ci_name (demo_compiler 0),
                att_semver = ci_semver (demo_compiler 0), att_code = 0, att_stderr_text = []\<rparr> \<and>
        lowest_supported g =
          Some \<lparr>att_platform = ''x86-64'', att_series = ''gcc'', att_compiler_type = ''gcc'',
                att_compiler_id = ci_id (demo_compiler 5), att_compiler_name = ci_name (demo_compiler 5),
                att_semver = ci_semver (demo_compiler 5), att_code = 0, att_stderr_text = []\<rparr> \<and>
        first_failure g =
          Some \<lparr>att_platform = ''x86-64'', att_series = ''gcc'', att_compiler_type = ''gcc'',
                att_compiler_id = ci_id (demo_compiler 6), att_compiler_name = ci_name (demo_compiler 6),
                att_semver = ci_semver (demo_compiler 6), att_code = 1,
                att_stderr_text = ''error: no member''\<rparr> \<and>
        inconclusive_reason g = None \<and>
        length (attempts g) =
          length (calls (snd (probe_group_binary (boundary_worker 5) ''x86-64'' ''gcc'' ''gcc''
                                (demo_compilers 16))))) \<and>
   length (calls (snd (probe_group_binary (boundary_worker 5) ''x86-64'' ''gcc'' ''gcc''
                         (demo_compilers 16)))) \<le> ceillog2 16 + 2"
proof -
  let ?P = "probe_group_binary (boundary_worker 5) ''x86-64'' ''gcc'' ''gcc'' (demo_compilers 16)"
  have h0: "(0::nat) \<le> 5" by simp
  have h1: "(5::nat) < length (demo_compilers 16) - 1" by (simp add: demo_compilers_def)
  have h2: "\<forall>q. \<not> cancelled (boundary_worker 5) q" by (simp add: boundary_worker_def)
  have h3: "\<forall>i\<le>5. \<exists>t. compile_cached (boundary_worker 5) i = Response 0 t"
    by (simp add: boundary_worker_def)
  have h4: "\<forall>i. 5 < i \<and> i < length (demo_compilers 16) \<longrightarrow>
              (\<exists>c t. compile_cached (boundary_worker 5) i = Response c t \<and> c \<noteq> 0)"
    by (simp add: boundary_worker_def)
  have h5: "?P = (fst ?P, snd ?P)" by simp
  have d: "demo_compilers 16 ! 0 = demo_compiler 0" "demo_compilers 16 ! 5 = demo_compiler 5"
    "demo_compilers 16 ! 6 = demo_compiler 6" "length (demo_compilers 16) = 16"
    by (simp_all add: demo_compilers_def)
  have w: "compile_cached (boundary_worker 5) 0 = Response 0 []"
    "compile_cached (boundary_worker 5) 5 = Response 0 []"
    "compile_cached (boundary_worker 5) 6 = Response 1 ''error: no member''"
    by (simp_all add: boundary_worker_def)
  from probe_finds_boundary[OF h0 h1 h2 h3 h4 h5]
  obtain g t0 tk c t1 where
    "fst ?P = Inr g"
    "compile_cached (boundary_worker 5) 0 = Response 0 t0"
    "compile_cached (boundary_worker 5) 5 = Response 0 tk"
    "compile_cached (boundary_worker 5) (5 + 1) = Response c t1"
    "highest_supported g =
             Some \<lparr>att_platform = ''x86-64'', att_series = ''gcc'', att_compiler_type = ''gcc'',
                   att_compiler_id = ci_id (demo_compilers 16 ! 0),
                   att_compiler_name = ci_name (demo_compilers 16 ! 0),
                   att_semver = ci_semver (demo_compilers 16 ! 0), att_code = 0, att_stderr_text = t0\<rparr>"
    "lowest_supported g =
             Some \<lparr>att_platform = ''x86-64'', att_series = ''gcc'', att_compiler_type = ''gcc'',
                   att_compiler_id = ci_id (demo_compilers 16 ! 5),
                   att_compiler_name = ci_name (demo_compilers 16 ! 5),
                   att_semver = ci_semver (demo_compilers 16 ! 5), att_code = 0, att_stderr_text = tk\<rparr>"
    "first_failure g =
             Some \<lparr>att_platform = ''x86-64'', att_series = ''gcc'', att_compiler_type = ''gcc'',
                   att_compiler_id = ci_id (demo_compilers 16 ! (5 + 1)),
                   att_compiler_name = ci_name (demo_compilers 16 ! (5 + 1)),
                   att_semver = ci_semver (demo_compilers 16 ! (5 + 1)), att_code = c,
                   att_stderr_text = t1\<rparr>"
    "inconclusive_reason g = None"
    "length (attempts g) = length (calls (snd ?P))"
    "length (calls (snd ?P)) \<le> ceillog2 (length (demo_compilers 16)) + 2"
    by blast
  with h1 w d show ?thesis by auto
qed

text \<open>The same run, evaluated: six compile calls, in this order.\<close>

lemma probe_demo_calls:
  "calls (snd (probe_group_binary (boundary_worker 5) ''x86-64'' ''gcc'' ''gcc''
                 (demo_compilers 16))) = [0, 15, 7, 3, 5, 6]"
  by code_simp

subsection \<open>A transport fault halts the search\<close>

text \<open>
  Claim C2. Whatever the candidate list and whatever the worker does, if a compile call
  that the probe made for some index \<open>i\<close> raised a timeout or another transport fault,
  then the probe returns a summary (it does not raise), the summary's
  \<open>inconclusive_reason\<close> is set (to the message \<open>test\<close> builds for that candidate), its
  \<open>lowest_supported\<close> is \<open>None\<close>, its \<open>first_failure\<close> is the faulted attempt, its
  attempts are those recorded so far, and the faulted call is the last compile call of the
  probe: no further index is compiled.
\<close>

theorem probe_fault_halts_search:
  assumes P: "probe_group_binary w p s f cs = (r, st)"
    and i: "i \<in> set (calls st)" and F: "is_fault (compile_cached w i)"
  shows "\<exists>g. r = Inr g \<and>
           inconclusive_reason g \<noteq> None \<and>
           inconclusive_reason g = reason_of (cs ! i) (compile_cached w i) \<and>
           lowest_supported g = None \<and>
           first_failure g = Some (attempt_of p s f (cs ! i) (compile_cached w i)) \<and>
           attempts g = tested st \<and>
           last (calls st) = i"
proof (cases r)
  case (Inl e)
  with probe_general[OF P] i F show ?thesis by auto
next
  case (Inr g)
  with probe_general[OF P] have FR: "fault_report w p s f cs st g" by simp
  from i F have ncl: "\<not> clean w st" by (auto simp: clean_def)
  with FR obtain j where j: "faulted w cs st j"
    and g: "inconclusive_reason g = reason_of (cs ! j) (compile_cached w j)"
       "lowest_supported g = None"
       "first_failure g = Some (attempt_of p s f (cs ! j) (compile_cached w j))"
       "attempts g = tested st"
    unfolding fault_report_def by blast
  from j have ne: "calls st \<noteq> []" and lj: "last (calls st) = j"
    and bl: "\<forall>q \<in> set (butlast (calls st)). \<not> is_fault (compile_cached w q)"
    by (simp_all add: faulted_def)
  from ne have "set (calls st) = insert (last (calls st)) (set (butlast (calls st)))"
    by (metis append_butlast_last_id list.simps(15) rotate1.simps(2) set_rotate1)
  with i F bl lj have ij: "i = j" by auto
  from F have "reason_of (cs ! i) (compile_cached w i) \<noteq> None"
    by (cases "compile_cached w i") simp_all
  with g lj Inr ij show ?thesis by simp
qed

theorem probe_fault_halts_search_witness:
  "7 \<in> set (calls (snd (probe_group_binary (faulty_worker 5 7) ''x86-64'' ''gcc'' ''gcc'' (demo_compilers 16)))) \<and>
   is_fault (compile_cached (faulty_worker 5 7) 7) \<and>
   (\<exists>g. fst (probe_group_binary (faulty_worker 5 7) ''x86-64'' ''gcc'' ''gcc'' (demo_compilers 16)) = Inr g \<and>
        inconclusive_reason g = Some ''Transport error talking to Compiler Explorer (compiler id=g153)'' \<and>
        lowest_supported g = None \<and>
        first_failure g = Some (mk_attempt ''x86-64'' ''gcc'' ''gcc'' (demo_compiler 7) CODE_TRANSPORT_ERROR ''connection reset'') \<and>
        last (calls (snd (probe_group_binary (faulty_worker 5 7) ''x86-64'' ''gcc'' ''gcc'' (demo_compilers 16)))) = 7)"
proof -
  let ?P = "probe_group_binary (faulty_worker 5 7) ''x86-64'' ''gcc'' ''gcc'' (demo_compilers 16)"
  have h1: "?P = (fst ?P, snd ?P)" by simp
  have h2: "7 \<in> set (calls (snd ?P))" by code_simp
  have h3: "is_fault (compile_cached (faulty_worker 5 7) 7)" by (simp add: faulty_worker_def)
  have c: "compile_cached (faulty_worker 5 7) 7 = TransportFault ''connection reset''"
    by (simp add: faulty_worker_def)
  have d: "demo_compilers 16 ! 7 = demo_compiler 7" by (simp add: demo_compilers_def)
  have e: "ci_id (demo_compiler 7) = ''g153''" by code_simp
  from probe_fault_halts_search[OF h1 h2 h3] h2 h3 show ?thesis
    by (auto simp: c d e transport_reason_def)
qed

subsection \<open>The newest candidate fails\<close>

lemma probe_newest_result:
  assumes "cs \<noteq> []" and "\<not> cancelled w 0" and "compile_cached w 0 = Response c txt" and "c \<noteq> 0"
  shows "probe_group_binary w p s f cs =
           (Inr (summary p s f None None (Some (mk_attempt p s f (cs ! 0) c txt))
                   [mk_attempt p s f (cs ! 0) c txt] None),
            \<lparr>attempts_by_idx = [(0, mk_attempt p s f (cs ! 0) c txt)], inc_reason = None,
             polls = 1, calls = [0]\<rparr>)"
  using assms
  by (simp add: probe_group_binary_def test_def init_pstate_def Let_def ok_def mk_attempt_def)

text \<open>
  Claim C6. For a non-empty candidate list, if the first poll of the abort flag is negative
  and the compile of index 0 answers with a non-zero result code, then the probe returns
  a summary of the group with \<open>highest_supported = None\<close>, \<open>lowest_supported = None\<close>,
  \<open>first_failure\<close> the attempt for index 0 (the candidate's id, name and semver, that
  code and the text of the response), that attempt as its only attempt and no inconclusive
  reason; and index 0 is the only index for which a compile call was made.
\<close>

theorem probe_newest_fails:
  assumes "cs \<noteq> []" and "\<not> cancelled w 0" and "compile_cached w 0 = Response c txt" and "c \<noteq> 0"
  shows "\<exists>g a. probe_group_binary w p s f cs =
                 (Inr g, \<lparr>attempts_by_idx = [(0, a)], inc_reason = None, polls = 1, calls = [0]\<rparr>) \<and>
               a = \<lparr>att_platform = p, att_series = s, att_compiler_type = f,
                    att_compiler_id = ci_id (cs ! 0), att_compiler_name = ci_name (cs ! 0),
                    att_semver = ci_semver (cs ! 0), att_code = c, att_stderr_text = txt\<rparr> \<and>
               sum_platform g = p \<and> sum_series g = s \<and> sum_compiler_type g = f \<and>
               highest_supported g = None \<and> lowest_supported g = None \<and>
               first_failure g = Some a \<and> attempts g = [a] \<and> length (attempts g) = 1 \<and>
               inconclusive_reason g = None"
  using probe_newest_result[OF assms, of p s f]
  by (simp add: summary_def mk_attempt_def)

theorem probe_newest_fails_witness:
  "demo_compilers 3 \<noteq> [] \<and>
   (\<exists>g. probe_group_binary failing_worker ''x86-64'' ''gcc'' ''gcc'' (demo_compilers 3) =
          (Inr g,
           \<lparr>attempts_by_idx =
              [(0, \<lparr>att_platform = ''x86-64'', att_series = ''gcc'', att_compiler_type = ''gcc'',
                    att_compiler_id = ci_id (demo_compiler 0),
                    att_compiler_name = ci_name (demo_compiler 0),
                    att_semver = ci_semver (demo_compiler 0), att_code = 1,
                    att_stderr_text = ''error: no member''\<rparr>)],
            inc_reason = None, polls = 1, calls = [0]\<rparr>) \<and>
        highest_supported g = None \<and> lowest_supported g = None \<and>
        first_failure g =
          Some \<lparr>att_platform = ''x86-64'', att_series = ''gcc'', att_compiler_type = ''gcc'',
                att_compiler_id = ci_id (demo_compiler 0),
                att_compiler_name = ci_name (demo_compiler 0),
                att_semver = ci_semver (demo_compiler 0), att_code = 1,
                att_stderr_text = ''error: no member''\<rparr> \<and>
        length (attempts g) = 1 \<and> inconclusive_reason g = None)"
proof -
  have h1: "demo_compilers 3 \<noteq> []" by (simp add: demo_compilers_def upt_rec)
  have h2: "\<not> cancelled failing_worker 0" by (simp add: failing_worker_def)
  have h3: "compile_cached failing_worker 0 = Response 1 ''error: no member''"
    by (simp add: failing_worker_def)
  have h4: "(1::int) \<noteq> 0" by simp
  have d: "demo_compilers 3 ! 0 = demo_compiler 0" by (simp add: demo_compilers_def)
  from probe_newest_fails[OF h1 h2 h3 h4, of "''x86-64''" "''gcc''" "''gcc''"] h1 show ?thesis
    by (auto simp: d)
qed

subsection \<open>The oldest candidate succeeds\<close>

lemma probe_oldest_result:
  assumes "2 \<le> length cs" and "\<not> cancelled w 0" and "\<not> cancelled w 1"
    and "compile_cached w 0 = Response 0 t0" and "compile_cached w (length cs - 1) = Response 0 t1"
  shows "probe_group_binary w p s f cs =
           (Inr (summary p s f (Some (mk_attempt p s f (cs ! 0) 0 t0))
                   (Some (mk_attempt p s f (cs ! (length cs - 1)) 0 t1)) None
                   [mk_attempt p s f (cs ! 0) 0 t0, mk_attempt p s f (cs ! (length cs - 1)) 0 t1]
                   None),
            \<lparr>attempts_by_idx = [(0, mk_attempt p s f (cs ! 0) 0 t0),
                                (length cs - 1, mk_attempt p s f (cs ! (length cs - 1)) 0 t1)],
             inc_reason = None, polls = 2, calls = [0, length cs - 1]\<rparr>)"
proof -
  from assms(1) have n: "cs \<noteq> []" "length cs \<noteq> 1" "length cs - 1 \<noteq> 0" "length cs - 1 < length cs"
    by auto
  have ok0: "ok (mk_attempt p s f ci 0 t)" for ci t by (simp add: ok_def mk_attempt_def)
  show ?thesis
    using assms(2-) n
    by (simp add: probe_group_binary_def test_def init_pstate_def Let_def ok0 tested_def
        List.map_filter_simps)
qed

text \<open>
  Claim C7. For a candidate list of length at least 2, if the first two polls of the abort
  flag are negative and the compiles of index 0 and of index \<open>n - 1\<close> both answer with
  result code 0, then exactly two compile calls are made, for the indices 0 and \<open>n - 1\<close>
  in this order, and the probe returns a summary of the group with \<open>highest_supported\<close>
  the attempt for the newest candidate, \<open>lowest_supported\<close> the attempt for the oldest
  candidate, no \<open>first_failure\<close>, these two attempts and no inconclusive reason; the
  search loop is not entered.
\<close>

theorem probe_oldest_succeeds:
  assumes "2 \<le> length cs" and "\<not> cancelled w 0" and "\<not> cancelled w 1"
    and "compile_cached w 0 = Response 0 t0" and "compile_cached w (length cs - 1) = Response 0 t1"
  shows "\<exists>g a0 a1. probe_group_binary w p s f cs =
                 (Inr g, \<lparr>attempts_by_idx = [(0, a0), (length cs - 1, a1)], inc_reason = None,
                          polls = 2, calls = [0, length cs - 1]\<rparr>) \<and>
               a0 = \<lparr>att_platform = p, att_series = s, att_compiler_type = f,
                     att_compiler_id = ci_id (cs ! 0), att_compiler_name = ci_name (cs ! 0),
                     att_semver = ci_semver (cs ! 0), att_code = 0, att_stderr_text = t0\<rparr> \<and>
               a1 = \<lparr>att_platform = p, att_series = s, att_compiler_type = f,
                     att_compiler_id = ci_id (cs ! (length cs - 1)),
                     att_compiler_name = ci_name (cs ! (length cs - 1)),
                     att_semver = ci_semver (cs ! (length cs - 1)), att_code = 0,
                     att_stderr_text = t1\<rparr> \<and>
               sum_platform g = p \<and> sum_series g = s \<and> sum_compiler_type g = f \<and>
               highest_supported g = Some a0 \<and> lowest_supported g = Some a1 \<and>
               first_failure g = None \<and> attempts g = [a0, a1] \<and> length (attempts g) = 2 \<and>
               inconclusive_reason g = None"
  using probe_oldest_result[OF assms, of p s f]
  by (simp add: summary_def mk_attempt_def)

theorem probe_oldest_succeeds_witness:
  "(2::nat) \<le> length (demo_compilers 16) \<and>
   (\<exists>g. probe_group_binary (boundary_worker 20) ''x86-64'' ''gcc'' ''gcc'' (demo_compilers 16) =
          (Inr g,
           \<lparr>attempts_by_idx =
              [(0, \<lparr>att_platform = ''x86-64'', att_series = ''gcc'', att_compiler_type = ''gcc'',
                    att_compiler_id = ci_id (demo_compiler 0),
                    att_compiler_name = ci_name (demo_compiler 0),
                    att_semver = ci_semver (demo_compiler 0), att_code = 0, att_stderr_text = []\<rparr>),
               (15, \<lparr>att_platform = ''x86-64'', att_series = ''gcc'', att_compiler_type = ''gcc'',
                     att_compiler_id = ci_id (demo_compiler 15),
                     att_compiler_name = ci_name (demo_compiler 15),
                     att_semver = ci_semver (demo_compiler 15), att_code = 0, att_stderr_text = []\<rparr>)],
            inc_reason = None, polls = 2, calls = [0, 15]\<rparr>) \<and>
        highest_supported g =
          Some \<lparr>att_platform = ''x86-64'', att_series = ''gcc'', att_compiler_type = ''gcc'',
                att_compiler_id = ci_id (demo_compiler 0),
                att_compiler_name = ci_name (demo_compiler 0),
                att_semver = ci_semver (demo_compiler 0), att_code = 0, att_stderr_text = []\<rparr> \<and>
        lowest_supported g =
          Some \<lparr>att_platform = ''x86-64'', att_series = ''gcc'', att_compiler_type = ''gcc'',
                att_compiler_id = ci_id (demo_compiler 15),
                att_compiler_name = ci_name (demo_compiler 15),
                att_semver = ci_semver (demo_compiler 15), att_code = 0, att_stderr_text = []\<rparr> \<and>
        first_failure g = None \<and> length (attempts g) = 2 \<and> inconclusive_reason g = None)"
proof -
  have h1: "(2::nat) \<le> length (demo_compilers 16)" by (simp add: demo_compilers_def)
  have h2: "\<not> cancelled (boundary_worker 20) 0" and h3: "\<not> cancelled (boundary_worker 20) 1"
    by (simp_all add: boundary_worker_def)
  have h4: "compile_cached (boundary_worker 20) 0 = Response 0 []"
    by (simp add: boundary_worker_def)
  have h5: "compile_cached (boundary_worker 20) (length (demo_compilers 16) - 1) = Response 0 []"
    by (simp add: boundary_worker_def demo_compilers_def)
  have d: "demo_compilers 16 ! 0 = demo_compiler 0" "demo_compilers 16 ! 15 = demo_compiler 15"
    "length (demo_compilers 16) = 16"
    by (simp_all add: demo_compilers_def)
  from probe_oldest_succeeds[OF h1 h2 h3 h4 h5, of "''x86-64''" "''gcc''" "''gcc''"] h1
  show ?thesis by (auto simp: d)
qed

subsection \<open>Result codes of the reported attempts\<close>

text \<open>
  Claim C10. In every summary that \<open>_probe_group_binary\<close> returns, in every summary
  that one iteration of \<open>run\<close> hands to \<open>group_done\<close>, and in the summary that the
  error containment of \<open>run\<close> builds for any exception message, \<open>highest_supported\<close>
  and \<open>lowest_supported\<close>, when not \<open>None\<close>, have result code 0 (\<open>ok()\<close> is true),
  and \<open>first_failure\<close>, when not \<open>None\<close>, has a non-zero result code.
\<close>

theorem probe_summary_codes:
  assumes "fst (probe_group_binary w p s f cs) = Inr g \<or>
           run_group cb w p s f cs = Some g \<or>
           g = probe_error_summary p s f msg"
  shows "(\<forall>a. highest_supported g = Some a \<longrightarrow> att_code a = 0 \<and> ok a) \<and>
         (\<forall>a. lowest_supported g = Some a \<longrightarrow> att_code a = 0 \<and> ok a) \<and>
         (\<forall>a. first_failure g = Some a \<longrightarrow> att_code a \<noteq> 0 \<and> \<not> ok a)"
proof -
  have A: "summary_sound g" if "fst (probe_group_binary w p s f cs) = Inr g"
  proof -
    have "probe_group_binary w p s f cs = (Inr g, snd (probe_group_binary w p s f cs))"
      using that by (metis prod.collapse)
    from probe_general[OF this] show ?thesis by simp
  qed
  have B: "summary_sound (probe_error_summary p s f m)" for m
    by (simp add: summary_sound_def probe_error_summary_def summary_def ok_def
        CODE_TRANSPORT_ERROR_def)
  have "summary_sound g"
    using assms A B
    by (auto simp: run_group_def split: if_splits sum.splits exn.splits)
  then show ?thesis by (simp add: summary_sound_def ok_def)
qed

theorem probe_summary_codes_witness:
  "\<not> isl (fst (probe_group_binary (boundary_worker 5) ''x86-64'' ''gcc'' ''gcc'' (demo_compilers 16))) \<and>
   highest_supported (projr (fst (probe_group_binary (boundary_worker 5) ''x86-64'' ''gcc'' ''gcc'' (demo_compilers 16))))
     = Some (mk_attempt ''x86-64'' ''gcc'' ''gcc'' (demo_compiler 0) 0 []) \<and>
   ok (mk_attempt ''x86-64'' ''gcc'' ''gcc'' (demo_compiler 0) 0 []) \<and>
   lowest_supported (projr (fst (probe_group_binary (boundary_worker 5) ''x86-64'' ''gcc'' ''gcc'' (demo_compilers 16))))
     = Some (mk_attempt ''x86-64'' ''gcc'' ''gcc'' (demo_compiler 5) 0 []) \<and>
   ok (mk_attempt ''x86-64'' ''gcc'' ''gcc'' (demo_compiler 5) 0 []) \<and>
   first_failure (projr (fst (probe_group_binary (boundary_worker 5) ''x86-64'' ''gcc'' ''gcc'' (demo_compilers 16))))
     = Some (mk_attempt ''x86-64'' ''gcc'' ''gcc'' (demo_compiler 6) 1 ''error: no member'') \<and>
   \<not> ok (mk_attempt ''x86-64'' ''gcc'' ''gcc'' (demo_compiler 6) 1 ''error: no member'')"
proof -
  let ?P = "probe_group_binary (boundary_worker 5) ''x86-64'' ''gcc'' ''gcc'' (demo_compilers 16)"
  have a: "\<not> isl (fst ?P)" by code_simp
  then have h: "fst ?P = Inr (projr (fst ?P)) \<or>
      run_group False (boundary_worker 5) ''x86-64'' ''gcc'' ''gcc'' (demo_compilers 16) = Some (projr (fst ?P)) \<or>
      projr (fst ?P) = probe_error_summary ''x86-64'' ''gcc'' ''gcc'' []"
    by simp
  have b: "highest_supported (projr (fst ?P)) = Some (mk_attempt ''x86-64'' ''gcc'' ''gcc'' (demo_compiler 0) 0 [])"
    by code_simp
  have c: "lowest_supported (projr (fst ?P)) = Some (mk_attempt ''x86-64'' ''gcc'' ''gcc'' (demo_compiler 5) 0 [])"
    by code_simp
  have d: "first_failure (projr (fst ?P)) = Some (mk_attempt ''x86-64'' ''gcc'' ''gcc'' (demo_compiler 6) 1 ''error: no member'')"
    by code_simp
  from probe_summary_codes[OF h] a b c d show ?thesis by simp
qed

section \<open>Library rules\<close>

lemma first_seen_snoc:
  "first_seen (ys @ [y]) = (if y \<in> set ys then first_seen ys else first_seen ys @ [y])"
  by (simp add: first_seen_def)

lemma set_first_seen [simp]: "set (first_seen xs) = set xs"
  by (simp add: first_seen_def)

lemma fold_rule_step:
  "fold_inv (filter rule_usable (filter (rule_applies fam cid) rules))
     (fold (rule_step fam cid) rules (Map.empty, []))"
proof (induction rules rule: rev_induct)
  case Nil
  show ?case by (simp add: fold_inv_def first_seen_def)
next
  case (snoc r rules)
  obtain ch ord where st: "fold (rule_step fam cid) rules (Map.empty, []) = (ch, ord)"
    by (cases "fold (rule_step fam cid) rules (Map.empty, [])")
  show ?case
  proof (cases "rule_applies fam cid r \<and> rule_usable r")
    case False
    then have "rule_step fam cid r (ch, ord) = (ch, ord)"
      by (auto simp: rule_step_def rule_applies_def rule_usable_def apply_rule_def
          normalize_ce_library_id_def normalize_ce_library_version_def Let_def)
    with snoc st False show ?thesis by auto
  next
    case True
    then have "rule_step fam cid r (ch, ord) =
       (ch(strip (lib_id r) \<mapsto> strip (version r)),
        if ch (strip (lib_id r)) = None then ord @ [strip (lib_id r)] else ord)"
      by (auto simp: rule_step_def rule_applies_def rule_usable_def apply_rule_def
          normalize_ce_library_id_def normalize_ce_library_version_def Let_def)
    with snoc st True show ?thesis
      by (auto simp: fold_inv_def first_seen_snoc)
  qed
qed

lemma effective_as_merge:
  "effective_libraries_for_compiler rules family compiler_id =
     last_writer_wins (filter (rule_applies (strip family) (strip compiler_id)) rules)"
proof -
  let ?fam = "strip family" and ?cid = "strip compiler_id"
  let ?us = "filter rule_usable (filter (rule_applies ?fam ?cid) rules)"
  obtain ch ord where st: "fold (rule_step ?fam ?cid) rules (Map.empty, []) = (ch, ord)"
    by (cases "fold (rule_step ?fam ?cid) rules (Map.empty, [])")
  from fold_rule_step[of ?fam ?cid rules] st
  have ord: "ord = first_seen (map (\<lambda>r. strip (lib_id r)) ?us)"
    and ch: "\<And>l. ch l = (if l \<in> set (map (\<lambda>r. strip (lib_id r)) ?us)
         then Some (strip (version (last (filter (\<lambda>r. strip (lib_id r) = l) ?us)))) else None)"
    by (simp_all add: fold_inv_def)
  have "List.map_filter (\<lambda>lid. case ch lid of Some ver \<Rightarrow> Some (lid, ver) | None \<Rightarrow> None) ks =
        map (\<lambda>l. (l, strip (version (last (filter (\<lambda>r. strip (lib_id r) = l) ?us))))) ks"
    if "set ks \<subseteq> set (map (\<lambda>r. strip (lib_id r)) ?us)" for ks
    using that
  proof (induction ks)
    case Nil show ?case by (simp add: List.map_filter_simps)
  next
    case (Cons k ks)
    then have "ch k = Some (strip (version (last (filter (\<lambda>r. strip (lib_id r) = k) ?us))))"
      using ch[of k] by simp
    with Cons show ?case by (simp add: List.map_filter_simps)
  qed
  from this[of ord] ord st show ?thesis
    by (simp add: effective_libraries_for_compiler_def last_writer_wins_def Let_def)
qed

text \<open>
  Claim C5, as the specification states it, fails: the code applies the rules in the
  order of the rule list, not in the priority order of their scopes. With the compiler
  rule entered before the \<open>all\<close> rule, the \<open>all\<close> rule is the last writer and wins.
\<close>

theorem effective_libraries_priority_counterexample:
  "effective_libraries_for_compiler fmt_rules_compiler_first ''gcc'' ''g132'' = [(''fmt'', ''9.0'')] \<and>
   spec_effective_libraries fmt_rules_compiler_first ''gcc'' ''g132'' = [(''fmt'', ''13.0'')]"
  by code_simp

text \<open>
  Claim C5, amended. For every rule list, family and compiler id,
  \<open>_effective_libraries_for_compiler\<close> returns the last-writer-wins merge of the applying
  rules taken in the order of the rule list, deduplicated by library id and preserving
  first-seen order. Whenever the applying rules stand in the list in priority order (scope
  \<open>all\<close>, then \<open>family\<close>, then \<open>compiler\<close>), this is the specification's priority
  merge. For the rules of the example the result is fmt@13.0 for compiler g132 of family
  gcc, fmt@11.0 for compiler g100 of family gcc, and fmt@9.0 for a compiler of family clang.
\<close>

theorem effective_libraries_list_order:
  "effective_libraries_for_compiler rules family compiler_id =
     last_writer_wins (filter (rule_applies (strip family) (strip compiler_id)) rules) \<and>
   (filter (rule_applies (strip family) (strip compiler_id)) rules =
      by_priority (strip family) (strip compiler_id) rules \<longrightarrow>
    effective_libraries_for_compiler rules family compiler_id =
      spec_effective_libraries rules family compiler_id) \<and>
   effective_libraries_for_compiler fmt_rules ''gcc'' ''g132'' = [(''fmt'', ''13.0'')] \<and>
   effective_libraries_for_compiler fmt_rules ''gcc'' ''g100'' = [(''fmt'', ''11.0'')] \<and>
   effective_libraries_for_compiler fmt_rules ''clang'' ''clang1600'' = [(''fmt'', ''9.0'')]"
proof -
  have "effective_libraries_for_compiler fmt_rules ''gcc'' ''g132'' = [(''fmt'', ''13.0'')]"
    by code_simp
  moreover have "effective_libraries_for_compiler fmt_rules ''gcc'' ''g100'' = [(''fmt'', ''11.0'')]"
    by code_simp
  moreover have "effective_libraries_for_compiler fmt_rules ''clang'' ''clang1600'' = [(''fmt'', ''9.0'')]"
    by code_simp
  ultimately show ?thesis
    by (simp add: effective_as_merge spec_effective_libraries_def)
qed

theorem effective_libraries_list_order_witness:
  "filter (rule_applies (strip ''gcc'') (strip ''g132'')) fmt_rules =
     by_priority (strip ''gcc'') (strip ''g132'') fmt_rules \<and>
   effective_libraries_for_compiler fmt_rules ''gcc'' ''g132'' =
     spec_effective_libraries fmt_rules ''gcc'' ''g132'' \<and>
   effective_libraries_for_compiler fmt_rules ''gcc'' ''g132'' = [(''fmt'', ''13.0'')]"
proof -
  have h: "filter (rule_applies (strip ''gcc'') (strip ''g132'')) fmt_rules =
     by_priority (strip ''gcc'') (strip ''g132'') fmt_rules"
    by code_simp
  note T = effective_libraries_list_order[of fmt_rules "''gcc''" "''g132''"]
  from T have imp: "filter (rule_applies (strip ''gcc'') (strip ''g132'')) fmt_rules =
      by_priority (strip ''gcc'') (strip ''g132'') fmt_rules \<longrightarrow>
    effective_libraries_for_compiler fmt_rules ''gcc'' ''g132'' =
      spec_effective_libraries fmt_rules ''gcc'' ''g132''"
    by (rule conjunct1[OF conjunct2])
  from T have ex: "effective_libraries_for_compiler fmt_rules ''gcc'' ''g132'' = [(''fmt'', ''13.0'')]"
    by (rule conjunct1[OF conjunct2[OF conjunct2]])
  from imp h have "effective_libraries_for_compiler fmt_rules ''gcc'' ''g132'' =
      spec_effective_libraries fmt_rules ''gcc'' ''g132''" by (rule mp)
  with h ex show ?thesis by (intro conjI)
qed

section \<open>Version sort keys\<close>

lemma semver_examples:
  "parse_semver_key (Some ''14.2.0'') = Inr (14, 2, 0, 0, [])"
  "parse_semver_key (Some ''14.1.0'') = Inr (14, 1, 0, 0, [])"
  "parse_semver_key (Some ''9.0'') = Inr (9, 0, 0, 0, [])"
  "parse_semver_key (Some ''99.0.0'') = Inr (99, 0, 0, 0, [])"
  "parse_semver_key (Some ''trunk'') = Inr (9999, 9999, 9999, 9999, ''trunk'')"
  "parse_semver_key (Some ''nightly'') = Inr (9999, 9999, 9999, 9999, ''nightly'')"
  "parse_semver_key (Some ''10000.1'') = Inr (10000, 1, 0, 0, [])"
  by code_simp+

lemma tweak_small:
  assumes "starts_with_digit (strip r)" and "parse_semver_key (Some r) = Inr (a, b, c, t, rest)"
  shows "t = 0 \<or> t = 1"
proof -
  have "starts_with_digit (lower (strip r))"
    using assms(1)
    by (cases "strip r") (auto simp: starts_with_digit_def lower_def lower_char_def is_digit_def)
  with assms(2) show ?thesis
    by (auto simp: parse_semver_key_def Let_def split: if_splits option.splits sum.splits prod.splits)
qed

text \<open>
  Claim C3, as stated, fails in its general part: the key of a bleeding-edge string is
  the fixed tuple \<open>(9999, 9999, 9999, 9999, text)\<close>, and a numbered release whose major
  number exceeds 9999 sorts above it.
\<close>

theorem bleeding_edge_not_maximal_counterexample:
  "parse_semver_key (Some ''trunk'') = Inr (9999, 9999, 9999, 9999, ''trunk'') \<and>
   parse_semver_key (Some ''10000.1'') = Inr (10000, 1, 0, 0, []) \<and>
   key_less (9999, 9999, 9999, 9999, ''trunk'') (10000, 1, 0, 0, []) \<and>
   \<not> key_less (10000, 1, 0, 0, []) (9999, 9999, 9999, 9999, ''trunk'')"
  by (simp add: semver_examples)

text \<open>
  Claim C3, amended. Under the key of \<open>parse_semver_key\<close>,
  \<open>"14.2.0" > "14.1.0" > "9.0"\<close> and \<open>"trunk"\<close>, \<open>"nightly"\<close> \<open>> "99.0.0"\<close>. More
  generally, a string \<open>s\<close> that, stripped of surrounding white space and lower-cased,
  contains one of the tokens trunk, head, git, snapshot, nightly, tip and does not start
  with a digit gets the key \<open>(9999, 9999, 9999, 9999, text)\<close>; this key is strictly
  newer than the key \<open>(a, b, c, t, rest)\<close> of a numbered release string \<open>r\<close> (one
  whose stripped form starts with a digit) exactly when \<open>(a, b, c)\<close> is at most
  \<open>(9999, 9999, 9999)\<close> in lexicographic order, so for every release with a major number
  below 9999.
\<close>

theorem bleeding_edge_key:
  assumes tok: "list_ex (\<lambda>k. contains (lower (strip s)) k) bleeding_edge_tokens"
    and nd: "\<not> starts_with_digit (lower (strip s))"
    and rd: "starts_with_digit (strip r)"
    and pr: "parse_semver_key (Some r) = Inr (a, b, c, t, rest)"
  shows "key_less (14, 1, 0, 0, []) (14, 2, 0, 0, []) \<and>
         parse_semver_key (Some ''14.2.0'') = Inr (14, 2, 0, 0, []) \<and>
         parse_semver_key (Some ''14.1.0'') = Inr (14, 1, 0, 0, []) \<and>
         key_less (9, 0, 0, 0, []) (14, 1, 0, 0, []) \<and>
         parse_semver_key (Some ''9.0'') = Inr (9, 0, 0, 0, []) \<and>
         parse_semver_key (Some ''99.0.0'') = Inr (99, 0, 0, 0, []) \<and>
         parse_semver_key (Some ''trunk'') = Inr (9999, 9999, 9999, 9999, ''trunk'') \<and>
         parse_semver_key (Some ''nightly'') = Inr (9999, 9999, 9999, 9999, ''nightly'') \<and>
         key_less (99, 0, 0, 0, []) (9999, 9999, 9999, 9999, ''trunk'') \<and>
         key_less (99, 0, 0, 0, []) (9999, 9999, 9999, 9999, ''nightly'') \<and>
         parse_semver_key (Some s) = Inr (9999, 9999, 9999, 9999, lower (strip s)) \<and>
         (key_less (a, b, c, t, rest) (9999, 9999, 9999, 9999, lower (strip s)) \<longleftrightarrow>
            a < 9999 \<or> a = 9999 \<and> (b < 9999 \<or> b = 9999 \<and> c \<le> 9999)) \<and>
         (a < 9999 \<longrightarrow> key_less (a, b, c, t, rest) (9999, 9999, 9999, 9999, lower (strip s)))"
proof -
  have ne: "s \<noteq> []"
  proof
    assume "s = []"
    with tok show False by (simp add: strip_def lower_def bleeding_edge_tokens_def)
  qed
  with tok nd have "parse_semver_key (Some s) = Inr (9999, 9999, 9999, 9999, lower (strip s))"
    by (simp add: parse_semver_key_def Let_def)
  moreover from tweak_small[OF rd pr] have "t = 0 \<or> t = 1" .
  ultimately show ?thesis by (auto simp: semver_examples)
qed

theorem bleeding_edge_key_witness:
  "list_ex (\<lambda>k. contains (lower (strip ''Nightly build'')) k) bleeding_edge_tokens \<and>
   starts_with_digit (strip ''99.0.0'') \<and>
   parse_semver_key (Some ''99.0.0'') = Inr (99, 0, 0, 0, []) \<and>
   parse_semver_key (Some ''Nightly build'') = Inr (9999, 9999, 9999, 9999, ''nightly build'') \<and>
   key_less (99, 0, 0, 0, []) (9999, 9999, 9999, 9999, ''nightly build'')"
proof -
  have h1: "list_ex (\<lambda>k. contains (lower (strip ''Nightly build'')) k) bleeding_edge_tokens"
    by code_simp
  have h2: "\<not> starts_with_digit (lower (strip ''Nightly build''))" by code_simp
  have h3: "starts_with_digit (strip ''99.0.0'')" by code_simp
  have h4: "parse_semver_key (Some ''99.0.0'') = Inr (99, 0, 0, 0, [])"
    by (rule semver_examples)
  have l: "lower (strip ''Nightly build'') = ''nightly build''" by code_simp
  from bleeding_edge_key[OF h1 h2 h3 h4] h1 h3 h4 show ?thesis
    by (simp add: l)
qed

section \<open>The report interchange format\<close>

lemma dict_to_att_roundtrip: "dict_to_att B (att_to_dict a) = Inr (reread_att a)"
  by (cases "att_semver a")
     (simp_all add: dict_to_att_def att_to_dict_def py_get_def py_or_def reread_att_def or_default_def)

lemma opt_dict_to_att_roundtrip: "opt_dict_to_att B (opt_att a) = Inr (map_option reread_att a)"
  by (cases a) (simp_all add: opt_dict_to_att_def opt_att_def dict_to_att_roundtrip)

lemma the_dicts_map: "the_dicts (map (\<lambda>a. PDict (f a)) xs) = Some (map f xs)"
  by (induction xs) simp_all

lemma atts_of_dicts_roundtrip: "atts_of_dicts B (map att_to_dict as) = Inr (map reread_att as)"
  by (induction as) (simp_all add: dict_to_att_roundtrip)

lemma attempts_of_roundtrip:
  "attempts_of B (PList (map (\<lambda>a. PDict (att_to_dict a)) as)) = Inr (map reread_att as)"
  by (simp add: attempts_of_def the_dicts_map atts_of_dicts_roundtrip)

lemma group_get:
  "py_get (group_to_dict s) ''family'' = PStr (sum_compiler_type s)"
  "py_get (group_to_dict s) ''platform'' = PStr (sum_platform s)"
  "py_get (group_to_dict s) ''series'' = PStr (sum_series s)"
  "py_get (group_to_dict s) ''arch'' = PStr (sum_platform s)"
  "py_get (group_to_dict s) ''highest_supported'' = opt_att (highest_supported s)"
  "py_get (group_to_dict s) ''lowest_supported'' = opt_att (lowest_supported s)"
  "py_get (group_to_dict s) ''first_failure'' = opt_att (first_failure s)"
  "py_get (group_to_dict s) ''attempts'' = PList (map (\<lambda>a. PDict (att_to_dict a)) (attempts s))"
  "py_get (group_to_dict s) ''inconclusive_reason'' =
     (case inconclusive_reason s of None \<Rightarrow> PNone | Some m \<Rightarrow> PStr m)"
  by (simp_all add: py_get_def group_to_dict_def)

lemma dict_to_group_roundtrip: "dict_to_group B (group_to_dict s) = Inr (reread_group s)"
  by (cases "inconclusive_reason s")
     (simp_all add: dict_to_group_def group_get opt_dict_to_att_roundtrip attempts_of_roundtrip
        py_or_def reread_group_def or_default_def Let_def)

lemma groups_loop_roundtrip:
  "groups_loop B (map (\<lambda>s. PDict (group_to_dict s)) ss) = Inr (map reread_group ss)"
  by (induction ss) (simp_all add: dict_to_group_roundtrip)

lemma report_roundtrip_general:
  "report_dict_to_summaries B (summaries_to_report_dict standard summaries) =
     Inr (or_default standard ''c++17'', map reread_group summaries)"
  by (simp add: report_dict_to_summaries_def summaries_to_report_dict_def py_get_def py_or_def
      groups_loop_roundtrip or_default_def)

lemma reread_att_named: "att_named a \<Longrightarrow> reread_att a = a"
  by (simp add: att_named_def reread_att_def or_default_def)

lemma reread_group_named: "group_named s \<Longrightarrow> reread_group s = s"
proof -
  assume g: "group_named s"
  have "map_option reread_att x = x" if "\<forall>a. x = Some a \<longrightarrow> att_named a" for x
    using that by (cases x) (simp_all add: reread_att_named)
  moreover have "map reread_att (attempts s) = attempts s"
    using g by (simp add: group_named_def reread_att_named map_idI)
  ultimately show ?thesis using g
    by (simp add: group_named_def reread_group_def or_default_def)
qed

text \<open>
  Claim C4, as stated, fails: the reader replaces an empty standard by \<open>"c++17"\<close> and
  an empty platform, series or family by \<open>"unknown"\<close>, \<open>"(unknown series)"\<close>,
  \<open>"unknown"\<close>, so a report written with one of them empty does not come back equal.
\<close>

theorem report_roundtrip_counterexample:
  "report_dict_to_summaries demo_builtins (summaries_to_report_dict [] [unnamed_summary]) =
     Inr (''c++17'', [summary ''x86-64'' ''(unknown series)'' ''gcc'' None None None [] None]) \<and>
   report_dict_to_summaries demo_builtins (summaries_to_report_dict [] [unnamed_summary]) \<noteq>
     Inr ([], [unnamed_summary])"
proof -
  have "report_dict_to_summaries demo_builtins (summaries_to_report_dict [] [unnamed_summary]) =
     Inr (''c++17'', [summary ''x86-64'' ''(unknown series)'' ''gcc'' None None None [] None])"
    by (simp add: report_roundtrip_general or_default_def reread_group_def unnamed_summary_def
        summary_def)
  then show ?thesis by simp
qed

text \<open>
  Claim C4, amended. For every standard string and every list of summaries, writing them
  with \<open>summaries_to_report_dict\<close> and reading the result with
  \<open>report_dict_to_summaries\<close> raises nothing and returns the standard and the summaries
  with every empty standard, platform, series and family string replaced by its default.
  So it returns the same standard string and summaries equal to the originals in every
  field (platform, series, family, the three optional attempts, every attempt field, the
  attempts list whether empty or not, the inconclusive reason whether \<open>None\<close> or set)
  whenever the standard string and the platform, series and family strings of the
  summaries and of all their attempts are non-empty.
\<close>

theorem report_roundtrip:
  "report_dict_to_summaries B (summaries_to_report_dict standard summaries) =
     Inr (or_default standard ''c++17'', map reread_group summaries) \<and>
   (standard \<noteq> [] \<and> (\<forall>s \<in> set summaries. group_named s) \<longrightarrow>
    report_dict_to_summaries B (summaries_to_report_dict standard summaries) =
      Inr (standard, summaries))"
  by (simp add: report_roundtrip_general or_default_def reread_group_named map_idI)

theorem report_roundtrip_witness:
  "''c++20'' \<noteq> [] \<and>
   report_dict_to_summaries demo_builtins (summaries_to_report_dict ''c++20'' demo_summaries) =
     Inr (''c++20'', demo_summaries)"
proof -
  have h: "''c++20'' \<noteq> [] \<and> (\<forall>s \<in> set demo_summaries. group_named s)"
    by (simp add: demo_summaries_def group_named_def att_named_def summary_def mk_attempt_def)
  from report_roundtrip[of demo_builtins "''c++20''" demo_summaries] h show ?thesis
    by blast
qed

section \<open>The include flattener\<close>

lemma resolve_include_is_file:
  "resolve_include cfg fs name p = Some q \<Longrightarrow> is_file fs q"
  by (auto simp: resolve_include_def find_Some_iff split: if_splits)

declare flatten_file.simps [simp del]

lemma flatten_reentry:
  "norm_abs fs (expanduser fs p) \<in> set (stack st) \<Longrightarrow>
   flatten_file (Suc n) cfg fs p st =
     Some (Inr (if include_debug_comments cfg then cycle_marker (expanduser fs p) else []), st)"
  by (simp add: flatten_file.simps Let_def)

lemma flatten_total_aux:
  assumes fin: "finite (file_keys fs)"
  shows "(\<forall>p st. is_file fs p \<longrightarrow> card (file_keys fs - set (stack st)) < n \<longrightarrow>
            (\<exists>r st'. flatten_file n cfg fs p st = Some (r, st') \<and>
                      (\<forall>t. r = Inr t \<longrightarrow> stack st' = stack st))) \<and>
         (\<forall>p ln ls st. card (file_keys fs - set (stack st)) < n \<longrightarrow>
            (\<exists>r st'. flatten_lines n cfg fs p ln ls st = Some (r, st') \<and>
                      (\<forall>t. r = Inr t \<longrightarrow> stack st' = stack st)))"
proof (induction n)
  case 0
  show ?case by (simp add: flatten_file.simps)
next
  case (Suc n)
  have F: "\<exists>r st'. flatten_file (Suc n) cfg fs p st = Some (r, st') \<and>
                      (\<forall>t. r = Inr t \<longrightarrow> stack st' = stack st)"
    if pf: "is_file fs p" and c: "card (file_keys fs - set (stack st)) < Suc n" for p st
  proof -
    let ?p = "expanduser fs p" and ?k = "norm_abs fs (expanduser fs p)"
    show ?thesis
    proof (cases "?k \<in> set (stack st) \<or> (inline_once cfg \<and> ?k \<in> set (inlined st))")
      case True
      then show ?thesis by (auto simp: flatten_file.simps Let_def)
    next
      case False
      define st1 where "st1 = st\<lparr>stack := stack st @ [?k], inlined := List.insert ?k (inlined st),
                     files_inlined := files_inlined st + 1\<rparr>"
      have kS: "?k \<in> file_keys fs - set (stack st)" using pf False by (auto simp: file_keys_def)
      have "file_keys fs - set (stack st1) = (file_keys fs - set (stack st)) - {?k}"
        by (auto simp: st1_def)
      then have "card (file_keys fs - set (stack st1)) = card (file_keys fs - set (stack st)) - 1"
        using kS fin by (simp add: card_Diff_singleton)
      moreover have "0 < card (file_keys fs - set (stack st))"
        using kS fin by (metis card_gt_0_iff empty_iff finite_Diff)
      ultimately have c1: "card (file_keys fs - set (stack st1)) < n" using c by linarith
      show ?thesis
      proof (cases "read_text fs ?p")
        case None
        with False show ?thesis by (auto simp: flatten_file.simps Let_def)
      next
        case (Some src)
        from Suc c1 obtain r st2 where
          L: "flatten_lines n cfg fs ?p 0 (splitlines_keepends src) st1 = Some (r, st2)"
          and K: "\<forall>t. r = Inr t \<longrightarrow> stack st2 = stack st1" by blast
        show ?thesis
        proof (cases r)
          case (Inl e)
          with False Some L show ?thesis by (auto simp: flatten_file.simps Let_def st1_def)
        next
          case (Inr body)
          with K have "stack st2 = stack st @ [?k]" by (simp add: st1_def)
          with Inr False Some L show ?thesis by (auto simp: flatten_file.simps Let_def st1_def)
        qed
      qed
    qed
  qed
  have L: "\<exists>r st'. flatten_lines (Suc n) cfg fs p ln ls st = Some (r, st') \<and>
                      (\<forall>t. r = Inr t \<longrightarrow> stack st' = stack st)"
    if c: "card (file_keys fs - set (stack st)) < Suc n" for p ln ls st
    using c
  proof (induction ls arbitrary: ln st)
    case Nil
    show ?case by simp
  next
    case (Cons line rest)
    note c = Cons.prems
    show ?case
    proof (cases "strip_pragma_once cfg \<and> is_pragma_once line")
      case True
      with Cons.IH[OF c, of "ln + 1"] show ?thesis by simp
    next
      case np: False
      show ?thesis
      proof (cases "match_include line")
        case None
        from Cons.IH[OF c, of "ln + 1"] obtain r st' where
          "flatten_lines (Suc n) cfg fs p (ln + 1) rest st = Some (r, st')"
          "\<forall>t. r = Inr t \<longrightarrow> stack st' = stack st" by blast
        with np None show ?thesis by (cases r) auto
      next
        case (Some inc_name)
        define st1 where "st1 = st\<lparr>include_lines_seen := include_lines_seen st + 1\<rparr>"
        show ?thesis
        proof (cases "resolve_include cfg fs inc_name p")
          case None
          define st2 where "st2 = st1\<lparr>include_lines_unresolved := include_lines_unresolved st1 + 1\<rparr>"
          have c2: "card (file_keys fs - set (stack st2)) < Suc n" using c by (simp add: st2_def st1_def)
          from Cons.IH[OF c2, of "ln + 1"] obtain r st' where
            "flatten_lines (Suc n) cfg fs p (ln + 1) rest st2 = Some (r, st')"
            "\<forall>t. r = Inr t \<longrightarrow> stack st' = stack st2" by blast
          with np Some None show ?thesis by (cases r) (auto simp: Let_def st1_def st2_def)
        next
          case res: (Some resolved)
          define st2 where "st2 = st1\<lparr>include_lines_inlined := include_lines_inlined st1 + 1\<rparr>"
          have c2: "card (file_keys fs - set (stack st2)) < Suc n" using c by (simp add: st2_def st1_def)
          have s2: "stack st2 = stack st" by (simp add: st2_def st1_def)
          from F[OF resolve_include_is_file[OF res] c2] obtain r st3 where
            R: "flatten_file (Suc n) cfg fs resolved st2 = Some (r, st3)"
            and K: "\<forall>t. r = Inr t \<longrightarrow> stack st3 = stack st2" by blast
          show ?thesis
          proof (cases r)
            case (Inl e)
            with np Some res R show ?thesis by (auto simp: Let_def st1_def st2_def)
          next
            case (Inr tx)
            with K s2 have s3: "stack st3 = stack st" by simp
            then have c3: "card (file_keys fs - set (stack st3)) < Suc n" using c by simp
            from Cons.IH[OF c3, of "ln + 1"] obtain r' st' where
              "flatten_lines (Suc n) cfg fs p (ln + 1) rest st3 = Some (r', st')"
              "\<forall>t. r' = Inr t \<longrightarrow> stack st' = stack st3" by blast
            with np Some res R Inr s3 show ?thesis
              by (cases r') (auto simp: Let_def st1_def st2_def)
          qed
        qed
      qed
    qed
  qed
  from F L show ?case by blast
qed
lemma flatten_total:
  assumes "finite (file_keys fs)" and "card (file_keys fs) < fuel"
  shows "\<exists>r. flatten_user_includes fuel fs root_file search io spo eld idc = Some r"
proof (cases "is_file fs (expanduser fs root_file)")
  case False
  then show ?thesis by (simp add: flatten_user_includes_def)
next
  case True
  show ?thesis
  proof (cases search)
    case (Inl e)
    with True show ?thesis by (simp add: flatten_user_includes_def)
  next
    case (Inr dirs)
    have "card (file_keys fs - set (stack init_flat_state)) < fuel"
      using assms(2) by (simp add: init_flat_state_def)
    with flatten_total_aux[OF assms(1), of fuel] True Inr show ?thesis
      by (fastforce simp: flatten_user_includes_def Let_def)
  qed
qed

lemma file_keys_mem_fs: "file_keys (mem_fs files) = fst ` set files"
  by (auto simp: file_keys_def mem_fs_def map_of_eq_None_iff)

text \<open>
  Claim C8. On a file system with finitely many regular files, \<open>flatten_user_includes\<close>
  returns (a text or an error) for every root file, every outcome of the search-path
  computation and every value of the four flags, so for both values of \<open>inline_once\<close>:
  a nesting depth of one more than the number of regular files is never exceeded, whatever
  the files include, two files that include each other among them. And a call of
  \<open>_flatten_file\<close> for a file that is on the active recursion stack returns at once, with
  the empty text, or the cycle marker when \<open>include_debug_comments\<close> is set, and the state
  unchanged; it makes no nested call (it returns with fuel for none).
\<close>

theorem flatten_terminates:
  assumes "finite (file_keys fs)" and "card (file_keys fs) < fuel"
  shows "(\<exists>r. flatten_user_includes fuel fs root_file search io spo eld idc = Some r) \<and>
         (\<forall>cfg p st. norm_abs fs (expanduser fs p) \<in> set (stack st) \<longrightarrow>
            flatten_file (Suc 0) cfg fs p st =
              Some (Inr (if include_debug_comments cfg then cycle_marker (expanduser fs p) else []),
                    st))"
  using flatten_total[OF assms] flatten_reentry by blast

text \<open>
  The instance of the claim: \<open>a.h\<close> includes \<open>b.h\<close>, which includes \<open>a.h\<close>. With
  both values of \<open>inline_once\<close> the flattener returns; the inner include of \<open>a.h\<close>
  contributes nothing.
\<close>

theorem flatten_terminates_witness:
  "finite (file_keys (mem_fs cycle_files)) \<and> card (file_keys (mem_fs cycle_files)) < 3 \<and>
   (\<exists>r. flatten_user_includes 3 (mem_fs cycle_files) ''/src/a.h'' (Inr []) False False False False
           = Some r) \<and>
   (\<exists>r. flatten_user_includes 3 (mem_fs cycle_files) ''/src/a.h'' (Inr []) True False False False
           = Some r)"
proof -
  have k: "file_keys (mem_fs cycle_files) = {''/src/a.h'', ''/src/b.h''}"
    by (simp add: file_keys_mem_fs cycle_files_def)
  have h1: "finite (file_keys (mem_fs cycle_files))" by (simp add: k)
  have h2: "card (file_keys (mem_fs cycle_files)) < 3" by (simp add: k)
  from flatten_terminates[OF h1 h2, of "''/src/a.h''" "Inr []" False False False False]
       flatten_terminates[OF h1 h2, of "''/src/a.h''" "Inr []" True False False False]
       h1 h2
  show ?thesis by blast
qed

lemma flatten_cycle_demo:
  "flatten_user_includes 3 (mem_fs cycle_files) ''/src/a.h'' (Inr []) False False False False =
     Some (Inr (''int a0;'' @ [nl] @ ''#pragma once'' @ [nl] @ ''int b;'' @ [nl] @ ''int a1;'' @ [nl]),
           \<lparr>stack = [], inlined = [''/src/b.h'', ''/src/a.h''], files_inlined = 2,
            include_lines_seen = 2, include_lines_inlined = 2, include_lines_unresolved = 0\<rparr>)"
  by code_simp

subsection \<open>A diamond is inlined once\<close>

lemma include_not_pragma: "match_include l = Some name \<Longrightarrow> \<not> is_pragma_once l"
proof
  assume m: "match_include l = Some name" and pr: "is_pragma_once l"
  obtain c b where l: "dropWhile is_space l = c # b"
    using m by (cases "dropWhile is_space l") (simp_all add: match_include_def)
  from m l have i: "startswith (dropWhile is_space b) ''include''"
    by (auto simp: match_include_def split: if_splits)
  from pr l have p: "startswith (dropWhile is_space b) ''pragma''"
    by (auto simp: is_pragma_once_def Let_def)
  from i p show False by (cases "dropWhile is_space b") auto
qed

lemma yields_inert:
  assumes "\<forall>l \<in> set ls. inert cfg fs p l"
  shows "yields_lines n cfg fs p lno ls V (kept cfg ls) V"
  unfolding yields_lines_def
proof (intro allI impI)
  fix s assume "view s = V"
  with assms show "\<exists>s'. flatten_lines n cfg fs p lno ls s = Some (Inr (kept cfg ls), s') \<and> view s' = V"
  proof (induction ls arbitrary: lno s)
    case Nil
    then show ?case by (simp add: kept_def)
  next
    case (Cons l ls)
    from Cons.prems have il: "inert cfg fs p l" and rest: "\<forall>l \<in> set ls. inert cfg fs p l" by simp_all
    show ?case
    proof (cases "strip_pragma_once cfg \<and> is_pragma_once l")
      case True
      with Cons.IH[OF rest Cons.prems(2), of "lno + 1"] show ?thesis by (simp add: kept_def)
    next
      case np: False
      show ?thesis
      proof (cases "match_include l")
        case None
        with np Cons.IH[OF rest Cons.prems(2), of "lno + 1"] show ?thesis
          by (auto simp: kept_def)
      next
        case (Some name)
        with il np have r: "resolve_include cfg fs name p = None" by (simp add: inert_def)
        let ?s = "s\<lparr>include_lines_seen := include_lines_seen s + 1,
                    include_lines_unresolved := include_lines_unresolved s + 1\<rparr>"
        have "view ?s = V" using Cons.prems(2) by (simp add: view_def)
        from Cons.IH[OF rest this, of "lno + 1"] np Some r show ?thesis
          by (auto simp: kept_def Let_def)
      qed
    qed
  qed
qed

lemma yields_include:
  assumes m: "match_include l = Some name" and r: "resolve_include cfg fs name p = Some q"
    and y: "yields_file n cfg fs q V t V'"
  shows "yields_lines n cfg fs p lno [l] V
           (before_include cfg name q @ t @ after_include cfg (lno + 1) p) V'"
  unfolding yields_lines_def
proof (intro allI impI)
  fix s assume v: "view s = V"
  let ?s = "s\<lparr>include_lines_seen := include_lines_seen s + 1,
              include_lines_inlined := include_lines_inlined s + 1\<rparr>"
  have "view ?s = V" using v by (simp add: view_def)
  with y obtain s' where f: "flatten_file n cfg fs q ?s = Some (Inr t, s')" and v': "view s' = V'"
    unfolding yields_file_def by blast
  from include_not_pragma[OF m] m r f v'
  show "\<exists>s'. flatten_lines n cfg fs p lno [l] s =
          Some (Inr (before_include cfg name q @ t @ after_include cfg (lno + 1) p), s') \<and>
          view s' = V'"
    by (simp add: Let_def)
qed

lemma flatten_lines_append_ok:
  assumes "flatten_lines n cfg fs p lno xs s = Some (Inr t1, s1)"
    and "flatten_lines n cfg fs p (lno + length xs) ys s1 = Some (Inr t2, s2)"
  shows "flatten_lines n cfg fs p lno (xs @ ys) s = Some (Inr (t1 @ t2), s2)"
  using assms
proof (induction xs arbitrary: lno s t1)
  case Nil
  then show ?case by simp
next
  case (Cons x xs)
  have a: "lno + 1 + length xs = lno + length (x # xs)" by simp
  note ys = Cons.prems(2)[folded a]
  show ?case
  proof (cases "strip_pragma_once cfg \<and> is_pragma_once x")
    case True
    with Cons.prems(1) have "flatten_lines n cfg fs p (lno + 1) xs s = Some (Inr t1, s1)" by simp
    from Cons.IH[OF this ys] True show ?thesis by simp
  next
    case np: False
    show ?thesis
    proof (cases "match_include x")
      case None
      with np Cons.prems(1) obtain o1 where
        r: "flatten_lines n cfg fs p (lno + 1) xs s = Some (Inr o1, s1)" and t: "t1 = x @ o1"
        by (auto split: option.splits sum.splits prod.splits)
      from Cons.IH[OF r ys] np None t show ?thesis by auto
    next
      case (Some name)
      show ?thesis
      proof (cases "resolve_include cfg fs name p")
        case None
        with np Some Cons.prems(1) obtain o1 where
          r: "flatten_lines n cfg fs p (lno + 1) xs
                (s\<lparr>include_lines_seen := include_lines_seen s + 1,
                   include_lines_unresolved := include_lines_unresolved s + 1\<rparr>) = Some (Inr o1, s1)"
          and t: "t1 = x @ o1"
          by (auto simp: Let_def split: option.splits sum.splits prod.splits)
        from Cons.IH[OF r ys] np Some None t show ?thesis by (auto simp: Let_def)
      next
        case res: (Some q)
        with np Some Cons.prems(1) obtain tq sq o1 where
          f: "flatten_file n cfg fs q
                (s\<lparr>include_lines_seen := include_lines_seen s + 1,
                   include_lines_inlined := include_lines_inlined s + 1\<rparr>) = Some (Inr tq, sq)"
          and r: "flatten_lines n cfg fs p (lno + 1) xs sq = Some (Inr o1, s1)"
          and t: "t1 = before_include cfg name q @ tq @ after_include cfg (lno + 1) p @ o1"
          by (auto simp: Let_def split: option.splits sum.splits prod.splits)
        from Cons.IH[OF r ys] np Some res f t show ?thesis by (auto simp: Let_def)
      qed
    qed
  qed
qed

lemma yields_append:
  assumes "yields_lines n cfg fs p lno xs V t1 V1"
    and "yields_lines n cfg fs p (lno + length xs) ys V1 t2 V2"
  shows "yields_lines n cfg fs p lno (xs @ ys) V (t1 @ t2) V2"
  unfolding yields_lines_def
proof (intro allI impI)
  fix s assume "view s = V"
  with assms(1) obtain s1 where a: "flatten_lines n cfg fs p lno xs s = Some (Inr t1, s1)"
    and v1: "view s1 = V1" unfolding yields_lines_def by blast
  from assms(2) v1 obtain s2 where b: "flatten_lines n cfg fs p (lno + length xs) ys s1 = Some (Inr t2, s2)"
    and v2: "view s2 = V2" unfolding yields_lines_def by blast
  from flatten_lines_append_ok[OF a b] v2
  show "\<exists>s'. flatten_lines n cfg fs p lno (xs @ ys) s = Some (Inr (t1 @ t2), s') \<and> view s' = V2"
    by simp
qed

lemma yields_fresh_file:
  assumes e: "expanduser fs p = p" and ns: "norm_abs fs p \<notin> set stk"
    and ni: "norm_abs fs p \<notin> I" and rd: "read_text fs p = Some src"
    and y: "yields_lines n cfg fs p 0 (splitlines_keepends src)
              (stk @ [norm_abs fs p], insert (norm_abs fs p) I, Suc f) body
              (stk @ [norm_abs fs p], I', f')"
  shows "yields_file (Suc n) cfg fs p (stk, I, f)
           (file_header cfg p @ body @ file_footer cfg p) (stk, I', f')"
  unfolding yields_file_def
proof (intro allI impI)
  fix s assume v: "view s = (stk, I, f)"
  let ?s1 = "s\<lparr>stack := stack s @ [norm_abs fs p], inlined := List.insert (norm_abs fs p) (inlined s),
                files_inlined := files_inlined s + 1\<rparr>"
  have "view ?s1 = (stk @ [norm_abs fs p], insert (norm_abs fs p) I, Suc f)"
    using v by (auto simp: view_def)
  with y obtain s2 where l: "flatten_lines n cfg fs p 0 (splitlines_keepends src) ?s1 = Some (Inr body, s2)"
    and v2: "view s2 = (stk @ [norm_abs fs p], I', f')" unfolding yields_lines_def by blast
  from v ns ni have "norm_abs fs p \<notin> set (stack s)" "norm_abs fs p \<notin> set (inlined s)"
    by (auto simp: view_def)
  with e rd l v2
  show "\<exists>s'. flatten_file (Suc n) cfg fs p s =
          Some (Inr (file_header cfg p @ body @ file_footer cfg p), s') \<and> view s' = (stk, I', f')"
    by (auto simp: flatten_file.simps Let_def view_def)
qed

lemma yields_skipped_file:
  assumes e: "expanduser fs p = p" and ns: "norm_abs fs p \<notin> set stk"
    and i: "norm_abs fs p \<in> I" and io: "inline_once cfg"
  shows "yields_file (Suc n) cfg fs p (stk, I, f)
           (if include_debug_comments cfg then skip_marker p else []) (stk, I, f)"
  unfolding yields_file_def using assms
  by (auto simp: flatten_file.simps Let_def view_def)

text \<open>
  Claim C9. Let the root file consist of inert lines and two include lines, the first
  resolving to \<open>B\<close> and the second to \<open>C\<close>; let \<open>B\<close> and \<open>C\<close> each consist of
  inert lines and one include line, resolving to \<open>D1\<close> and to \<open>D2\<close>, two paths of the
  same file \<open>D\<close> (their normalised absolute paths are equal; the paths themselves may be
  equal or not); let \<open>D\<close> consist of inert lines; and let the four files be distinct.
  Then \<open>flatten_user_includes\<close> with \<open>inline_once = True\<close>, for every value of the
  other three flags and with fuel for three nested calls or more, returns the text below:
  the body of \<open>D\<close> stands in it once, inside the expansion of \<open>B\<close>; where \<open>C\<close>
  includes \<open>D\<close> there is nothing, or the skip marker when \<open>include_debug_comments\<close>
  is set; and four file bodies have been inlined in all.
\<close>

theorem diamond_inlined_once:
  assumes cfg: "cfg = \<lparr>inline_once = True, strip_pragma_once = spo, emit_line_directives = eld,
                       include_debug_comments = idc, global_search = dirs\<rparr>"
    and ex: "expanduser fs R = R" "expanduser fs B = B" "expanduser fs C = C" "expanduser fs D1 = D1"
      "expanduser fs D2 = D2"
    and same: "norm_abs fs D2 = norm_abs fs D1"
    and dist: "distinct [norm_abs fs R, norm_abs fs B, norm_abs fs C, norm_abs fs D1]"
    and fR: "is_file fs R"
    and rR: "read_text fs R = Some srcR" "splitlines_keepends srcR = R0 @ [lB] @ R1 @ [lC] @ R2"
    and rB: "read_text fs B = Some srcB" "splitlines_keepends srcB = B0 @ [lBD] @ B1"
    and rC: "read_text fs C = Some srcC" "splitlines_keepends srcC = C0 @ [lCD] @ C1"
    and rD: "read_text fs D1 = Some srcD" "splitlines_keepends srcD = D0"
    and iB: "match_include lB = Some nB" "resolve_include cfg fs nB R = Some B"
    and iC: "match_include lC = Some nC" "resolve_include cfg fs nC R = Some C"
    and iBD: "match_include lBD = Some nBD" "resolve_include cfg fs nBD B = Some D1"
    and iCD: "match_include lCD = Some nCD" "resolve_include cfg fs nCD C = Some D2"
    and inR: "\<forall>l \<in> set (R0 @ R1 @ R2). inert cfg fs R l"
    and inB: "\<forall>l \<in> set (B0 @ B1). inert cfg fs B l"
    and inC: "\<forall>l \<in> set (C0 @ C1). inert cfg fs C l"
    and inD: "\<forall>l \<in> set D0. inert cfg fs D1 l"
  shows "\<exists>st. flatten_user_includes (n + 3) fs R (Inr dirs) True spo eld idc =
           Some (Inr (file_header cfg R @
                      (kept cfg R0 @
                       (before_include cfg nB B @
                        (file_header cfg B @
                         (kept cfg B0 @
                          (before_include cfg nBD D1 @
                           (file_header cfg D1 @ kept cfg D0 @ file_footer cfg D1) @
                           after_include cfg (length B0 + 1) B) @
                          kept cfg B1) @
                         file_footer cfg B) @
                        after_include cfg (length R0 + 1) R) @
                       kept cfg R1 @
                       (before_include cfg nC C @
                        (file_header cfg C @
                         (kept cfg C0 @
                          (before_include cfg nCD D2 @
                           (if idc then skip_marker D2 else []) @
                           after_include cfg (length C0 + 1) C) @
                          kept cfg C1) @
                         file_footer cfg C) @
                        after_include cfg (length R0 + 1 + length R1 + 1) R) @
                       kept cfg R2) @
                      file_footer cfg R), st) \<and>
         files_inlined st = 4 \<and> stack st = [] \<and>
         set (inlined st) = {norm_abs fs R, norm_abs fs B, norm_abs fs C, norm_abs fs D1}"
proof -
  let ?kR = "norm_abs fs R" and ?kB = "norm_abs fs B" and ?kC = "norm_abs fs C"
    and ?kD = "norm_abs fs D1"
  have io: "inline_once cfg" and dbg: "include_debug_comments cfg = idc" by (simp_all add: cfg)
  from inR have inR0: "\<forall>l \<in> set R0. inert cfg fs R l" and inR1: "\<forall>l \<in> set R1. inert cfg fs R l"
    and inR2: "\<forall>l \<in> set R2. inert cfg fs R l" by auto
  from inB have inB0: "\<forall>l \<in> set B0. inert cfg fs B l" and inB1: "\<forall>l \<in> set B1. inert cfg fs B l"
    by auto
  from inC have inC0: "\<forall>l \<in> set C0. inert cfg fs C l" and inC1: "\<forall>l \<in> set C1. inert cfg fs C l"
    by auto
  let ?IB = "insert ?kD (insert ?kB (insert ?kR {}))"
  \<comment> \<open>D1, included by B: a fresh file\<close>
  have yD: "yields_file (Suc n) cfg fs D1 ([?kR, ?kB], insert ?kB (insert ?kR {}), Suc (Suc 0))
              (file_header cfg D1 @ kept cfg D0 @ file_footer cfg D1)
              ([?kR, ?kB], ?IB, Suc (Suc (Suc 0)))"
  proof (rule yields_fresh_file[OF ex(4) _ _ rD(1)])
    show "?kD \<notin> set [?kR, ?kB]" using dist by auto
    show "?kD \<notin> insert ?kB (insert ?kR {})" using dist by auto
    show "yields_lines n cfg fs D1 0 (splitlines_keepends srcD)
            ([?kR, ?kB] @ [?kD], ?IB, Suc (Suc (Suc 0))) (kept cfg D0)
            ([?kR, ?kB] @ [?kD], ?IB, Suc (Suc (Suc 0)))"
      unfolding rD(2) by (rule yields_inert[OF inD])
  qed
  \<comment> \<open>B, included by the root\<close>
  have lB: "yields_lines (Suc n) cfg fs B 0 (B0 @ [lBD] @ B1)
              ([?kR] @ [?kB], insert ?kB (insert ?kR {}), Suc (Suc 0))
              (kept cfg B0 @
               (before_include cfg nBD D1 @
                (file_header cfg D1 @ kept cfg D0 @ file_footer cfg D1) @
                after_include cfg (length B0 + 1) B) @ kept cfg B1)
              ([?kR] @ [?kB], ?IB, Suc (Suc (Suc 0)))"
  proof (rule yields_append[OF yields_inert[OF inB0]], rule yields_append)
    show "yields_lines (Suc n) cfg fs B (0 + length B0) [lBD]
            ([?kR] @ [?kB], insert ?kB (insert ?kR {}), Suc (Suc 0))
            (before_include cfg nBD D1 @
                (file_header cfg D1 @ kept cfg D0 @ file_footer cfg D1) @
                after_include cfg (length B0 + 1) B)
            ([?kR] @ [?kB], ?IB, Suc (Suc (Suc 0)))"
      using yields_include[OF iBD yD, of "0 + length B0"] by simp
    show "yields_lines (Suc n) cfg fs B (0 + length B0 + length [lBD]) B1
            ([?kR] @ [?kB], ?IB, Suc (Suc (Suc 0))) (kept cfg B1)
            ([?kR] @ [?kB], ?IB, Suc (Suc (Suc 0)))"
      by (rule yields_inert[OF inB1])
  qed
  have yB: "yields_file (Suc (Suc n)) cfg fs B ([?kR], insert ?kR {}, Suc 0)
              (file_header cfg B @
               (kept cfg B0 @
               (before_include cfg nBD D1 @
                (file_header cfg D1 @ kept cfg D0 @ file_footer cfg D1) @
                after_include cfg (length B0 + 1) B) @ kept cfg B1) @ file_footer cfg B)
              ([?kR], ?IB, Suc (Suc (Suc 0)))"
  proof (rule yields_fresh_file[OF ex(2) _ _ rB(1)])
    show "?kB \<notin> set [?kR]" using dist by auto
    show "?kB \<notin> insert ?kR {}" using dist by auto
    show "yields_lines (Suc n) cfg fs B 0 (splitlines_keepends srcB)
            ([?kR] @ [?kB], insert ?kB (insert ?kR {}), Suc (Suc 0))
            (kept cfg B0 @
               (before_include cfg nBD D1 @
                (file_header cfg D1 @ kept cfg D0 @ file_footer cfg D1) @
                after_include cfg (length B0 + 1) B) @ kept cfg B1)
            ([?kR] @ [?kB], ?IB, Suc (Suc (Suc 0)))"
      unfolding rB(2) by (rule lB)
  qed
  \<comment> \<open>D1, included by C: already inlined\<close>
  have yD': "yields_file (Suc n) cfg fs D2 ([?kR, ?kC], insert ?kC ?IB, Suc (Suc (Suc (Suc 0))))
               (if include_debug_comments cfg then skip_marker D2 else [])
               ([?kR, ?kC], insert ?kC ?IB, Suc (Suc (Suc (Suc 0))))"
  proof (rule yields_skipped_file[OF ex(5) _ _ io])
    show "norm_abs fs D2 \<notin> set [?kR, ?kC]" using dist same by auto
    show "norm_abs fs D2 \<in> insert ?kC ?IB" using same by simp
  qed
  have lC: "yields_lines (Suc n) cfg fs C 0 (C0 @ [lCD] @ C1)
              ([?kR] @ [?kC], insert ?kC ?IB, Suc (Suc (Suc (Suc 0))))
              (kept cfg C0 @
               (before_include cfg nCD D2 @
                (if idc then skip_marker D2 else []) @
                after_include cfg (length C0 + 1) C) @ kept cfg C1)
              ([?kR] @ [?kC], insert ?kC ?IB, Suc (Suc (Suc (Suc 0))))"
  proof (rule yields_append[OF yields_inert[OF inC0]], rule yields_append)
    show "yields_lines (Suc n) cfg fs C (0 + length C0) [lCD]
            ([?kR] @ [?kC], insert ?kC ?IB, Suc (Suc (Suc (Suc 0))))
            (before_include cfg nCD D2 @
                (if idc then skip_marker D2 else []) @
                after_include cfg (length C0 + 1) C)
            ([?kR] @ [?kC], insert ?kC ?IB, Suc (Suc (Suc (Suc 0))))"
      using yields_include[OF iCD yD', of "0 + length C0"] by (simp add: dbg)
    show "yields_lines (Suc n) cfg fs C (0 + length C0 + length [lCD]) C1
            ([?kR] @ [?kC], insert ?kC ?IB, Suc (Suc (Suc (Suc 0)))) (kept cfg C1)
            ([?kR] @ [?kC], insert ?kC ?IB, Suc (Suc (Suc (Suc 0))))"
      by (rule yields_inert[OF inC1])
  qed
  have yC: "yields_file (Suc (Suc n)) cfg fs C ([?kR], ?IB, Suc (Suc (Suc 0)))
              (file_header cfg C @
               (kept cfg C0 @
               (before_include cfg nCD D2 @
                (if idc then skip_marker D2 else []) @
                after_include cfg (length C0 + 1) C) @ kept cfg C1) @ file_footer cfg C)
              ([?kR], insert ?kC ?IB, Suc (Suc (Suc (Suc 0))))"
  proof (rule yields_fresh_file[OF ex(3) _ _ rC(1)])
    show "?kC \<notin> set [?kR]" using dist by auto
    show "?kC \<notin> ?IB" using dist by auto
    show "yields_lines (Suc n) cfg fs C 0 (splitlines_keepends srcC)
            ([?kR] @ [?kC], insert ?kC ?IB, Suc (Suc (Suc (Suc 0))))
            (kept cfg C0 @
               (before_include cfg nCD D2 @
                (if idc then skip_marker D2 else []) @
                after_include cfg (length C0 + 1) C) @ kept cfg C1)
            ([?kR] @ [?kC], insert ?kC ?IB, Suc (Suc (Suc (Suc 0))))"
      unfolding rC(2) by (rule lC)
  qed
  \<comment> \<open>the root\<close>
  let ?tB = "before_include cfg nB B @
               (file_header cfg B @
               (kept cfg B0 @
               (before_include cfg nBD D1 @
                (file_header cfg D1 @ kept cfg D0 @ file_footer cfg D1) @
                after_include cfg (length B0 + 1) B) @ kept cfg B1) @ file_footer cfg B) @
               after_include cfg (length R0 + 1) R"
  let ?tC = "before_include cfg nC C @
               (file_header cfg C @
               (kept cfg C0 @
               (before_include cfg nCD D2 @
                (if idc then skip_marker D2 else []) @
                after_include cfg (length C0 + 1) C) @ kept cfg C1) @ file_footer cfg C) @
               after_include cfg (length R0 + 1 + length R1 + 1) R"
  have lR: "yields_lines (Suc (Suc n)) cfg fs R 0 (R0 @ [lB] @ R1 @ [lC] @ R2)
              ([] @ [?kR], insert ?kR {}, Suc 0)
              (kept cfg R0 @ ?tB @ kept cfg R1 @ ?tC @ kept cfg R2)
              ([] @ [?kR], insert ?kC ?IB, Suc (Suc (Suc (Suc 0))))"
  proof (rule yields_append[OF yields_inert[OF inR0]], rule yields_append,
         rule_tac [2] yields_append, rule_tac [3] yields_append)
    show "yields_lines (Suc (Suc n)) cfg fs R (0 + length R0) [lB]
            ([] @ [?kR], insert ?kR {}, Suc 0) ?tB ([] @ [?kR], ?IB, Suc (Suc (Suc 0)))"
      using yields_include[OF iB yB, of "0 + length R0"] by simp
    show "yields_lines (Suc (Suc n)) cfg fs R (0 + length R0 + length [lB]) R1
            ([] @ [?kR], ?IB, Suc (Suc (Suc 0))) (kept cfg R1) ([] @ [?kR], ?IB, Suc (Suc (Suc 0)))"
      by (rule yields_inert[OF inR1])
    show "yields_lines (Suc (Suc n)) cfg fs R (0 + length R0 + length [lB] + length R1) [lC]
            ([] @ [?kR], ?IB, Suc (Suc (Suc 0))) ?tC
            ([] @ [?kR], insert ?kC ?IB, Suc (Suc (Suc (Suc 0))))"
      using yields_include[OF iC yC, of "0 + length R0 + length [lB] + length R1"]
      by (simp add: add.assoc)
    show "yields_lines (Suc (Suc n)) cfg fs R
            (0 + length R0 + length [lB] + length R1 + length [lC]) R2
            ([] @ [?kR], insert ?kC ?IB, Suc (Suc (Suc (Suc 0)))) (kept cfg R2)
            ([] @ [?kR], insert ?kC ?IB, Suc (Suc (Suc (Suc 0))))"
      by (rule yields_inert[OF inR2])
  qed
  have yR: "yields_file (Suc (Suc (Suc n))) cfg fs R ([], {}, 0)
              (file_header cfg R @ (kept cfg R0 @ ?tB @ kept cfg R1 @ ?tC @ kept cfg R2) @
               file_footer cfg R)
              ([], insert ?kC ?IB, Suc (Suc (Suc (Suc 0))))"
  proof (rule yields_fresh_file[OF ex(1) _ _ rR(1)])
    show "?kR \<notin> set []" by simp
    show "?kR \<notin> {}" by simp
    show "yields_lines (Suc (Suc n)) cfg fs R 0 (splitlines_keepends srcR)
            ([] @ [?kR], insert ?kR {}, Suc 0)
            (kept cfg R0 @ ?tB @ kept cfg R1 @ ?tC @ kept cfg R2)
            ([] @ [?kR], insert ?kC ?IB, Suc (Suc (Suc (Suc 0))))"
      unfolding rR(2) by (rule lR)
  qed
  have v0: "view init_flat_state = ([], {}, 0)" by (simp add: view_def init_flat_state_def)
  from yR v0 obtain st where
    F: "flatten_file (Suc (Suc (Suc n))) cfg fs R init_flat_state =
          Some (Inr (file_header cfg R @ (kept cfg R0 @ ?tB @ kept cfg R1 @ ?tC @ kept cfg R2) @
               file_footer cfg R), st)"
    and v: "view st = ([], insert ?kC ?IB, Suc (Suc (Suc (Suc 0))))"
    unfolding yields_file_def by blast
  have n3: "n + 3 = Suc (Suc (Suc n))" by simp
  have "flatten_user_includes (n + 3) fs R (Inr dirs) True spo eld idc =
          flatten_file (Suc (Suc (Suc n))) cfg fs R init_flat_state"
    unfolding n3 using fR ex(1) by (simp add: flatten_user_includes_def cfg)
  with F v show ?thesis by (auto simp: view_def)
qed

text \<open>
  The instance: \<open>root.cpp\<close> includes \<open>x/b.h\<close> and \<open>y/c.h\<close>, which both
  include \<open>../d.h\<close>, so that \<open>d.h\<close> is reached as \<open>/src/x/../d.h\<close> and as
  \<open>/src/y/../d.h\<close>.
\<close>

theorem diamond_inlined_once_witness:
  "is_file (tree_fs nested_diamond_files) ''/src/root.cpp'' \<and>
   ''/src/y/../d.h'' \<noteq> ''/src/x/../d.h'' \<and>
   norm_abs (tree_fs nested_diamond_files) ''/src/y/../d.h'' =
     norm_abs (tree_fs nested_diamond_files) ''/src/x/../d.h'' \<and>
   (\<exists>st. flatten_user_includes 3 (tree_fs nested_diamond_files) ''/src/root.cpp'' (Inr [])
             True False False False =
           Some (Inr (''int d;'' @ [nl] @ ''int b;'' @ [nl] @ ''int c;'' @ [nl] @ ''int main() {}'' @ [nl]), st) \<and>
         files_inlined st = 4 \<and>
         set (inlined st) = {''/src/root.cpp'', ''/src/x/b.h'', ''/src/y/c.h'', ''/src/d.h''})"
proof -
  let ?fs = "tree_fs nested_diamond_files"
  let ?cfg = "\<lparr>inline_once = True, strip_pragma_once = False, emit_line_directives = False,
               include_debug_comments = False, global_search = []\<rparr>"
  let ?R = "''/src/root.cpp''" and ?B = "''/src/x/b.h''" and ?C = "''/src/y/c.h''"
    and ?D1 = "''/src/x/../d.h''" and ?D2 = "''/src/y/../d.h''"
  have ex: "expanduser ?fs ?R = ?R" "expanduser ?fs ?B = ?B" "expanduser ?fs ?C = ?C"
    "expanduser ?fs ?D1 = ?D1" "expanduser ?fs ?D2 = ?D2" by (simp_all add: tree_fs_def)
  have same: "norm_abs ?fs ?D2 = norm_abs ?fs ?D1" by code_simp
  have ne: "?D2 \<noteq> ?D1" by simp
  have dist: "distinct [norm_abs ?fs ?R, norm_abs ?fs ?B, norm_abs ?fs ?C, norm_abs ?fs ?D1]"
    by code_simp
  have k: "norm_abs ?fs ?R = ''/src/root.cpp''" "norm_abs ?fs ?B = ''/src/x/b.h''"
    "norm_abs ?fs ?C = ''/src/y/c.h''" "norm_abs ?fs ?D1 = ''/src/d.h''" by code_simp+
  have fR: "is_file ?fs ?R" by code_simp
  have rR: "read_text ?fs ?R = Some (inc_line ''x/b.h'' @ inc_line ''y/c.h'' @ ''int main() {}'' @ [nl])"
    by code_simp
  have sR: "splitlines_keepends (inc_line ''x/b.h'' @ inc_line ''y/c.h'' @ ''int main() {}'' @ [nl]) =
              [] @ [inc_line ''x/b.h''] @ [] @ [inc_line ''y/c.h''] @ [''int main() {}'' @ [nl]]"
    by code_simp
  have rB: "read_text ?fs ?B = Some (inc_line ''../d.h'' @ ''int b;'' @ [nl])" by code_simp
  have sB: "splitlines_keepends (inc_line ''../d.h'' @ ''int b;'' @ [nl]) =
              [] @ [inc_line ''../d.h''] @ [''int b;'' @ [nl]]" by code_simp
  have rC: "read_text ?fs ?C = Some (inc_line ''../d.h'' @ ''int c;'' @ [nl])" by code_simp
  have sC: "splitlines_keepends (inc_line ''../d.h'' @ ''int c;'' @ [nl]) =
              [] @ [inc_line ''../d.h''] @ [''int c;'' @ [nl]]" by code_simp
  have rD: "read_text ?fs ?D1 = Some (''int d;'' @ [nl])" by code_simp
  have sD: "splitlines_keepends (''int d;'' @ [nl]) = [''int d;'' @ [nl]]" by code_simp
  have iB: "match_include (inc_line ''x/b.h'') = Some ''x/b.h''" by code_simp
  have qB: "resolve_include ?cfg ?fs ''x/b.h'' ?R = Some ?B" by code_simp
  have iC: "match_include (inc_line ''y/c.h'') = Some ''y/c.h''" by code_simp
  have qC: "resolve_include ?cfg ?fs ''y/c.h'' ?R = Some ?C" by code_simp
  have iD: "match_include (inc_line ''../d.h'') = Some ''../d.h''" by code_simp
  have qBD: "resolve_include ?cfg ?fs ''../d.h'' ?B = Some ?D1" by code_simp
  have qCD: "resolve_include ?cfg ?fs ''../d.h'' ?C = Some ?D2" by code_simp
  have inR: "\<forall>l \<in> set ([] @ [] @ [''int main() {}'' @ [nl]]). inert ?cfg ?fs ?R l" by code_simp
  have inB: "\<forall>l \<in> set ([] @ [''int b;'' @ [nl]]). inert ?cfg ?fs ?B l" by code_simp
  have inC: "\<forall>l \<in> set ([] @ [''int c;'' @ [nl]]). inert ?cfg ?fs ?C l" by code_simp
  have inD: "\<forall>l \<in> set [''int d;'' @ [nl]]. inert ?cfg ?fs ?D1 l" by code_simp
  from diamond_inlined_once[OF refl ex same dist fR rR sR rB sB rC sC rD sD iB qB iC qC iD qBD
      iD qCD inR inB inC inD, of 0]
  obtain st where
    "flatten_user_includes (0 + 3) ?fs ?R (Inr []) True False False False =
       Some (Inr (''int d;'' @ [nl] @ ''int b;'' @ [nl] @ ''int c;'' @ [nl] @ ''int main() {}'' @ [nl]), st)"
    "files_inlined st = 4"
    "set (inlined st) = {norm_abs ?fs ?R, norm_abs ?fs ?B, norm_abs ?fs ?C, norm_abs ?fs ?D1}"
    by (auto simp: kept_def file_header_def file_footer_def before_include_def after_include_def)
  with fR ne same k show ?thesis by auto
qed

text \<open>
  The same run evaluated, and for contrast the run with \<open>inline_once = False\<close>, which
  emits the body of \<open>d.h\<close> twice and counts five bodies.
\<close>

lemma diamond_demo_once:
  "flatten_user_includes 3 (mem_fs diamond_files) ''/src/root.cpp'' (Inr []) True False False False =
     Some (Inr (''int d;'' @ [nl] @ ''int b;'' @ [nl] @ ''int c;'' @ [nl] @ ''int main() {}'' @ [nl]),
           \<lparr>stack = [], inlined = [''/src/c.h'', ''/src/d.h'', ''/src/b.h'', ''/src/root.cpp''],
            files_inlined = 4, include_lines_seen = 4, include_lines_inlined = 4,
            include_lines_unresolved = 0\<rparr>)"
  by code_simp

lemma diamond_demo_repeated:
  "flatten_user_includes 3 (mem_fs diamond_files) ''/src/root.cpp'' (Inr []) False False False False =
     Some (Inr (''int d;'' @ [nl] @ ''int b;'' @ [nl] @ ''int d;'' @ [nl] @ ''int c;'' @ [nl] @
                ''int main() {}'' @ [nl]),
           \<lparr>stack = [], inlined = [''/src/c.h'', ''/src/d.h'', ''/src/b.h'', ''/src/root.cpp''],
            files_inlined = 5, include_lines_seen = 4, include_lines_inlined = 4,
            include_lines_unresolved = 0\<rparr>)"
  by code_simp

lemma nested_diamond_demo:
  "flatten_user_includes 3 (tree_fs nested_diamond_files) ''/src/root.cpp'' (Inr [])
     True False False True =
     Some (Inr (begin_marker ''/src/root.cpp'' @
                inlined_marker ''x/b.h'' ''/src/x/b.h'' @
                begin_marker ''/src/x/b.h'' @
                inlined_marker ''../d.h'' ''/src/x/../d.h'' @
                begin_marker ''/src/x/../d.h'' @ ''int d;'' @ [nl] @ end_marker ''/src/x/../d.h'' @
                ''int b;'' @ [nl] @ end_marker ''/src/x/b.h'' @
                inlined_marker ''y/c.h'' ''/src/y/c.h'' @
                begin_marker ''/src/y/c.h'' @
                inlined_marker ''../d.h'' ''/src/y/../d.h'' @
                skip_marker ''/src/y/../d.h'' @
                ''int c;'' @ [nl] @ end_marker ''/src/y/c.h'' @
                ''int main() {}'' @ [nl] @ end_marker ''/src/root.cpp''),
           \<lparr>stack = [], inlined = [''/src/y/c.h'', ''/src/d.h'', ''/src/x/b.h'', ''/src/root.cpp''],
            files_inlined = 4, include_lines_seen = 4, include_lines_inlined = 4,
            include_lines_unresolved = 0\<rparr>)"
  by code_simp

end
